theory Spec2Isabelle
  imports Main "HOL-Library.AList" "HOL-Library.Sublist"
begin

section \<open>Stream resolution: \<^verbatim>\<open>YTDLSource.from_url\<close> and the two HTTP providers\<close>

subsection \<open>The video identifier\<close>

text \<open>
  \<^verbatim>\<open>re.search(r'(?:v=|\/)([0-9A-Za-z_-]{11}).*', url)\<close>: the leftmost position at which
  \<^verbatim>\<open>v=\<close> or \<^verbatim>\<open>/\<close> is followed by eleven characters of the class; group 1 is those
  eleven characters. At one position at most one alternative applies (the first character
  decides), and the trailing \<^verbatim>\<open>.*\<close> matches the empty string, so it never decides
  whether there is a match.
\<close>

definition id_char :: "char \<Rightarrow> bool" where
  "id_char c = (c \<in> set ''0123456789ABCDEFGHIJKLMNOPQRSTUVWXYZabcdefghijklmnopqrstuvwxyz_-'')"

definition id_at :: "string \<Rightarrow> string option" where
  "id_at s = (if 11 \<le> length s \<and> list_all id_char (take 11 s) then Some (take 11 s) else None)"

definition match_here :: "string \<Rightarrow> string option" where
  "match_here s =
     (if take 2 s = ''v='' then id_at (drop 2 s)
      else if take 1 s = ''/'' then id_at (drop 1 s)
      else None)"

fun video_id_match :: "string \<Rightarrow> string option" where
  "video_id_match [] = None"
| "video_id_match (c # cs) =
     (case match_here (c # cs) of Some v \<Rightarrow> Some v | None \<Rightarrow> video_id_match cs)"

subsection \<open>Provider responses\<close>

text \<open>
  One entry of \<^verbatim>\<open>audioStreams\<close> (Piped) or \<^verbatim>\<open>adaptiveFormats\<close> (Invidious): the fields
  the code reads. \<open>e_bitrate = None\<close> is an absent key, read as 0 by \<^verbatim>\<open>x.get('bitrate', 0)\<close>;
  \<open>e_type\<close> is \<^verbatim>\<open>f.get('type', '')\<close>, which only Invidious reads.
\<close>

record stream_entry =
  e_type :: string
  e_bitrate :: "int option"
  e_url :: "string option"

text \<open>
  A payload is the list under the provider's key (empty when the key is absent), or
  \<open>Malformed\<close> when \<^verbatim>\<open>resp.json()\<close> or a field access raises. A request ends in a network
  error, in the 15 second timeout, or in a response with its status.
\<close>

datatype payload = Malformed | Json "stream_entry list"

datatype http_result = NetError | TimedOut | Response nat payload

definition bitrate_of :: "stream_entry \<Rightarrow> int" where
  "bitrate_of e = (case e_bitrate e of None \<Rightarrow> 0 | Some b \<Rightarrow> b)"

text \<open>Python's \<^verbatim>\<open>max(xs, key=f)\<close> keeps the first of several maximal elements.\<close>

fun max_by :: "('a \<Rightarrow> int) \<Rightarrow> 'a \<Rightarrow> 'a list \<Rightarrow> 'a" where
  "max_by f best [] = best"
| "max_by f best (x # xs) = max_by f (if f best < f x then x else best) xs"

definition truthy_url :: "string option \<Rightarrow> string option" where
  "truthy_url u = (case u of None \<Rightarrow> None | Some s \<Rightarrow> if s = [] then None else Some s)"

definition best_url :: "stream_entry list \<Rightarrow> string option" where
  "best_url es = (case es of [] \<Rightarrow> None | x # xs \<Rightarrow> truthy_url (e_url (max_by bitrate_of x xs)))"

text \<open>
  The body of one loop iteration of \<^verbatim>\<open>get_youtube_stream_piped\<close>: \<open>Some u\<close> is
  \<^verbatim>\<open>return stream_url\<close>, \<open>None\<close> is every way of falling through to the next instance
  (an exception caught by \<^verbatim>\<open>except Exception\<close>, a status other than 200, an empty list,
  no usable \<^verbatim>\<open>url\<close> on the best entry).
\<close>

fun piped_instance :: "http_result \<Rightarrow> string option" where
  "piped_instance NetError = None"
| "piped_instance TimedOut = None"
| "piped_instance (Response st Malformed) = None"
| "piped_instance (Response st (Json streams)) = (if st = 200 then best_url streams else None)"

definition starts_with :: "string \<Rightarrow> string \<Rightarrow> bool" where
  "starts_with p s = (take (length p) s = p)"

text \<open>One loop iteration of \<^verbatim>\<open>get_youtube_stream_invidious\<close>; it keeps the audio formats only.\<close>

fun invidious_instance :: "http_result \<Rightarrow> string option" where
  "invidious_instance NetError = None"
| "invidious_instance TimedOut = None"
| "invidious_instance (Response st Malformed) = None"
| "invidious_instance (Response st (Json formats)) =
     (if st = 200 then best_url (filter (\<lambda>f. starts_with ''audio'' (e_type f)) formats) else None)"

definition PIPED_INSTANCES :: "string list" where
  "PIPED_INSTANCES =
     [''https://pipedapi.kavin.rocks'', ''https://pipedapi.tokhmi.xyz'', ''https://api-piped.mha.fi'']"

definition INVIDIOUS_INSTANCES :: "string list" where
  "INVIDIOUS_INSTANCES =
     [''https://iv.ggtyler.dev'', ''https://invidious.fdn.fr'', ''https://inv.nadeko.net'',
      ''https://invidious.private.coffee'', ''https://yt.artemislena.eu'',
      ''https://invidious.flokinet.to'']"

text \<open>
  What a resolution does to the outside world, in the order it does it: the trace that the
  order of the stages is read from. The string of a request is the instance it goes to.
\<close>

datatype event = RunCli | Cleanup | FetchMeta | GetPiped string | GetInvidious string

fun piped_loop :: "(string \<Rightarrow> http_result) \<Rightarrow> string \<Rightarrow> string list \<Rightarrow> string option \<times> event list" where
  "piped_loop get vid [] = (None, [])"
| "piped_loop get vid (inst # rest) =
     (case piped_instance (get (inst @ ''/streams/'' @ vid)) of
        Some u \<Rightarrow> (Some u, [GetPiped inst])
      | None \<Rightarrow> (case piped_loop get vid rest of (r, tr) \<Rightarrow> (r, GetPiped inst # tr)))"

definition get_youtube_stream_piped :: "(string \<Rightarrow> http_result) \<Rightarrow> string \<Rightarrow> string option \<times> event list" where
  "get_youtube_stream_piped get vid = piped_loop get vid PIPED_INSTANCES"

fun invidious_loop :: "(string \<Rightarrow> http_result) \<Rightarrow> string \<Rightarrow> string list \<Rightarrow> string option \<times> event list" where
  "invidious_loop get vid [] = (None, [])"
| "invidious_loop get vid (inst # rest) =
     (case invidious_instance (get (inst @ ''/api/v1/videos/'' @ vid)) of
        Some u \<Rightarrow> (Some u, [GetInvidious inst])
      | None \<Rightarrow> (case invidious_loop get vid rest of (r, tr) \<Rightarrow> (r, GetInvidious inst # tr)))"

definition get_youtube_stream_invidious :: "(string \<Rightarrow> http_result) \<Rightarrow> string \<Rightarrow> string option \<times> event list" where
  "get_youtube_stream_invidious get vid = invidious_loop get vid INVIDIOUS_INSTANCES"

subsection \<open>The cascade\<close>

text \<open>
  \<^verbatim>\<open>subprocess.run(cmd, ..., timeout=60)\<close> raises (the timeout, a missing executable) or
  returns with an exit code. \<^verbatim>\<open>ytdl_search.extract_info\<close> raises, returns \<^verbatim>\<open>None\<close>, one
  record, or a record with \<^verbatim>\<open>entries\<close>, of which the code takes the first.
\<close>

datatype proc_result = ProcRaises | ProcExit int

record info =
  i_title :: "string option"
  i_webpage_url :: "string option"

datatype ytdl_result = ExtractRaises | ExtractNone | ExtractInfo info | ExtractEntries "info option list"

datatype error = MetadataError | AllMethodsFailed | BadItem | UnboundTotalCount

text \<open>
  \<^verbatim>\<open>data = extract_info(...); if 'entries' in data: data = data['entries'][0] if data['entries'] else None\<close>.
  On \<^verbatim>\<open>None\<close> the membership test raises a \<^verbatim>\<open>TypeError\<close>. The result \<open>Inr None\<close> is a
  falsy \<^verbatim>\<open>data\<close>.
\<close>

fun first_data :: "ytdl_result \<Rightarrow> error + info option" where
  "first_data ExtractRaises = Inl MetadataError"
| "first_data ExtractNone = Inl MetadataError"
| "first_data (ExtractInfo d) = Inr (Some d)"
| "first_data (ExtractEntries []) = Inr None"
| "first_data (ExtractEntries (d # ds)) = Inr d"

text \<open>
  Everything outside the program that one call of \<^verbatim>\<open>from_url\<close> meets: the outcome of the
  yt-dlp run, what \<^verbatim>\<open>glob.glob(f"/tmp/ytdl_{video_id}.*")\<close> finds after it, the outcome of
  the metadata lookup in the download path and in the proxy path (two calls at two times),
  and what each provider answers to a request URL.
\<close>

record resolve_env =
  cli :: proc_result
  downloaded :: "string list"
  meta_cli :: ytdl_result
  meta_proxy :: ytdl_result
  piped_get :: "string \<Rightarrow> http_result"
  invidious_get :: "string \<Rightarrow> http_result"

text \<open>
  The handle: a downloaded file played by FFmpeg, a proxy URL streamed with the reconnect
  options, or (in \<^verbatim>\<open>play_next\<close>) a local file.
\<close>

datatype audio_source = Downloaded string info | ProxyStream string info | LocalFile string

text \<open>
  The \<^verbatim>\<open>try\<close> block of \<^verbatim>\<open>from_url\<close>: \<open>Some\<close> is its \<^verbatim>\<open>return\<close>, \<open>None\<close> is falling out of
  it (a non-zero exit code, no file, falsy metadata, or an exception caught by
  \<^verbatim>\<open>except Exception\<close>).
\<close>

definition download_stage :: "resolve_env \<Rightarrow> audio_source option \<times> event list" where
  "download_stage env =
     (case cli env of
        ProcRaises \<Rightarrow> (None, [RunCli])
      | ProcExit rc \<Rightarrow>
          if rc = 0 then
            (case downloaded env of
               [] \<Rightarrow> (None, [RunCli])
             | filename # _ \<Rightarrow>
                 (case first_data (meta_cli env) of
                    Inl _ \<Rightarrow> (None, [RunCli, Cleanup, FetchMeta])
                  | Inr None \<Rightarrow> (None, [RunCli, Cleanup, FetchMeta])
                  | Inr (Some d) \<Rightarrow> (Some (Downloaded filename d), [RunCli, Cleanup, FetchMeta])))
          else (None, [RunCli]))"

text \<open>The part under \<^verbatim>\<open>if video_id_match:\<close>.\<close>

definition proxy_stage :: "resolve_env \<Rightarrow> string \<Rightarrow> audio_source option \<times> event list" where
  "proxy_stage env vid =
     (case get_youtube_stream_piped (piped_get env) vid of (p, t2) \<Rightarrow>
        (case (case p of Some u \<Rightarrow> (Some u, []) | None \<Rightarrow> get_youtube_stream_invidious (invidious_get env) vid)
         of (None, t3) \<Rightarrow> (None, t2 @ t3)
          | (Some u, t3) \<Rightarrow>
              (case first_data (meta_proxy env) of
                 Inl _ \<Rightarrow> (None, t2 @ t3 @ [FetchMeta])
               | Inr None \<Rightarrow> (None, t2 @ t3 @ [FetchMeta])
               | Inr (Some d) \<Rightarrow> (Some (ProxyStream u d), t2 @ t3 @ [FetchMeta]))))"

definition from_url :: "resolve_env \<Rightarrow> string \<Rightarrow> (error + audio_source) \<times> event list" where
  "from_url env loc =
     (case download_stage env of
        (Some src, t1) \<Rightarrow> (Inr src, t1)
      | (None, t1) \<Rightarrow>
          (case video_id_match loc of
             None \<Rightarrow> (Inl AllMethodsFailed, t1)
           | Some vid \<Rightarrow>
               (case proxy_stage env vid of
                  (Some src, t2) \<Rightarrow> (Inr src, t1 @ t2)
                | (None, t2) \<Rightarrow> (Inl AllMethodsFailed, t1 @ t2))))"

text \<open>
  The words of the specification, to compare the cascade with. An attempt is a run of the
  downloader or a request to an instance; \<open>stage_order\<close> is the order the specification
  gives. \<open>download_ok\<close> is what lets the download path return: exit code 0, a matching
  file, and a metadata record. \<open>first_stream\<close> is the URL of the first instance, Piped's
  before Invidious's, whose answer yields one.
\<close>

definition is_attempt :: "event \<Rightarrow> bool" where
  "is_attempt e = (case e of Cleanup \<Rightarrow> False | FetchMeta \<Rightarrow> False | _ \<Rightarrow> True)"


definition download_ok :: "resolve_env \<Rightarrow> bool" where
  "download_ok env =
     (cli env = ProcExit 0 \<and> downloaded env \<noteq> [] \<and>
      (case first_data (meta_cli env) of Inr (Some d) \<Rightarrow> True | _ \<Rightarrow> False))"

definition first_stream :: "resolve_env \<Rightarrow> string \<Rightarrow> string option" where
  "first_stream env vid =
     (case List.map_filter (\<lambda>inst. piped_instance (piped_get env (inst @ ''/streams/'' @ vid))) PIPED_INSTANCES @
           List.map_filter (\<lambda>inst. invidious_instance (invidious_get env (inst @ ''/api/v1/videos/'' @ vid))) INVIDIOUS_INSTANCES
      of [] \<Rightarrow> None | u # _ \<Rightarrow> Some u)"

section \<open>The download cache: \<^verbatim>\<open>cleanup_old_downloads\<close>\<close>





datatype notice =
    CleanedUp string | FailedToDelete string
  | QueueIsEmpty | PlayingFromQueue string | NoVoiceClient | UsingPreloaded string
  | NowPlaying string | ErrorPlayingSong | PreloadedSong | PreloadError
  | LoadingNext string | ErrorLoadingNext



section \<open>The player\<close>

subsection \<open>Songs, playlists, the player's fields\<close>

datatype source_kind = Youtube | Spotify | Local

text \<open>
  A \<^verbatim>\<open>Song\<close> object. \<open>oid\<close> stands for \<^verbatim>\<open>id(song)\<close>: two objects alive at once have different
  ones. \<open>requester\<close> is the member, as an opaque number.
\<close>

record song =
  oid :: nat
  title :: string
  url :: string
  duration :: string
  requester :: nat
  source_type :: source_kind
  thumbnail :: "string option"

text \<open>
  \<^verbatim>\<open>f"{song.url}_{id(song)}"\<close>. The identity is printed in decimal, so the last underscore
  splits the string: the key is the pair.
\<close>

definition song_key :: "song \<Rightarrow> string \<times> nat" where
  "song_key s = (url s, oid s)"

definition search_pending :: "song \<Rightarrow> bool" where
  "search_pending s = (source_type s = Spotify \<and> starts_with ''spotify:search:'' (url s))"

record yt_entry =
  en_id :: "string option"
  en_title :: "string option"
  en_duration :: "nat option"
  en_webpage_url :: "string option"
  en_url :: "string option"
  en_thumbnail :: "string option"

text \<open>
  A Spotify track: its name (\<open>None\<close> when absent), the names of its artists, and the image
  URLs of its album (\<open>None\<close> when it has no album).
\<close>

record track =
  tr_name :: "string option"
  tr_artists :: "string list"
  tr_album :: "string option list option"

datatype sp_item = AlbumItem track string | PlaylistItem "track option"

text \<open>The dictionary \<^verbatim>\<open>pending_playlist\<close>.\<close>

record playlist =
  current_index :: nat
  is_spotify :: bool
  is_album :: bool
  tracks :: "sp_item list"
  entries :: "yt_entry option list"
  pl_requester :: nat

datatype task = PreloadNextSong | LoadNextFromPlaylist

text \<open>
  The fields of \<^verbatim>\<open>MusicPlayer\<close> that the queue logic reads and writes (the volume, a float
  copied onto each source, is left out). \<open>preloaded_sources\<close> is the dictionary, in
  insertion order. Four fields belong to the model: \<open>clock\<close> is the time, which indexes what
  the world answers; \<open>fresh\<close> is the identity the next new \<^verbatim>\<open>Song\<close> object gets; \<open>spawned\<close>
  holds the tasks handed to \<^verbatim>\<open>asyncio.create_task\<close> that have not run yet; \<open>out\<close> is what
  was printed.
\<close>

record player =
  queue :: "song list"
  current :: "song option"
  loop :: bool
  loop_queue :: bool
  pending_playlist :: "playlist option"
  preloaded_sources :: "((string \<times> nat) \<times> audio_source) list"
  clock :: nat
  fresh :: nat
  spawned :: "task list"
  out :: "notice list"

definition new_player :: player where
  "new_player = \<lparr>queue = [], current = None, loop = False, loop_queue = False,
     pending_playlist = None, preloaded_sources = [], clock = 0, fresh = 0, spawned = [], out = []\<rparr>"

text \<open>
  What \<^verbatim>\<open>process_youtube\<close> finds for a query: the fields the callers copy. The world gives,
  at each time, the outcome of a resolution, of a search, whether the guild has a voice
  client, and whether \<^verbatim>\<open>voice_client.play\<close> accepts the source (it raises otherwise).
\<close>

record found =
  fo_title :: string
  fo_url :: string
  fo_duration :: string
  fo_thumbnail :: "string option"

record world =
  resolve :: "nat \<Rightarrow> resolve_env"
  search :: "nat \<Rightarrow> string \<Rightarrow> found option"
  voice :: "nat \<Rightarrow> bool"
  play_ok :: "nat \<Rightarrow> bool"

definition say :: "notice \<Rightarrow> player \<Rightarrow> player" where
  "say n p = p\<lparr>out := out p @ [n]\<rparr>"

definition spawn :: "task \<Rightarrow> player \<Rightarrow> player" where
  "spawn t p = p\<lparr>spawned := spawned p @ [t]\<rparr>"

definition tick :: "player \<Rightarrow> player" where
  "tick p = p\<lparr>clock := Suc (clock p)\<rparr>"

subsection \<open>Building songs from playlist entries\<close>

function show_nat :: "nat \<Rightarrow> string" where
  "show_nat n =
     (if n < 10 then [''0123456789'' ! n] else show_nat (n div 10) @ [''0123456789'' ! (n mod 10)])"
  by pat_completeness auto
termination
  by (relation "measure id") auto

declare show_nat.simps [simp del]

definition pad2 :: "nat \<Rightarrow> string" where
  "pad2 n = (if n < 10 then CHR ''0'' # show_nat n else show_nat n)"

text \<open>\<^verbatim>\<open>format_duration\<close>; \<open>None\<close> is an absent or null duration.\<close>

definition format_duration :: "nat option \<Rightarrow> string" where
  "format_duration seconds =
     (case seconds of
        None \<Rightarrow> ''Unknown''
      | Some s \<Rightarrow>
          if s = 0 then ''Unknown''
          else (let hours = s div 3600; remainder = s mod 3600;
                    minutes = remainder div 60; secs = remainder mod 60
                in if hours \<noteq> 0 then show_nat hours @ '':'' @ pad2 minutes @ '':'' @ pad2 secs
                   else show_nat minutes @ '':'' @ pad2 secs))"

text \<open>\<^verbatim>\<open>entry.get('webpage_url') or entry.get('url') or f"https://www.youtube.com/watch?v={video_id}"\<close>.\<close>

definition entry_url :: "yt_entry \<Rightarrow> string" where
  "entry_url e =
     (case truthy_url (en_webpage_url e) of
        Some u \<Rightarrow> u
      | None \<Rightarrow>
          (case truthy_url (en_url e) of
             Some u \<Rightarrow> u
           | None \<Rightarrow> ''https://www.youtube.com/watch?v='' @ (case en_id e of None \<Rightarrow> ''None'' | Some i \<Rightarrow> i)))"

definition song_of_entry :: "nat \<Rightarrow> nat \<Rightarrow> yt_entry \<Rightarrow> song" where
  "song_of_entry r i e =
     \<lparr>oid = i, title = (case en_title e of None \<Rightarrow> ''Unknown'' | Some t \<Rightarrow> t), url = entry_url e,
      duration = format_duration (en_duration e), requester = r, source_type = Youtube,
      thumbnail = en_thumbnail e\<rparr>"

definition song_of_found :: "nat \<Rightarrow> nat \<Rightarrow> source_kind \<Rightarrow> found \<Rightarrow> song" where
  "song_of_found r i k f =
     \<lparr>oid = i, title = fo_title f, url = fo_url f, duration = fo_duration f, requester = r,
      source_type = k, thumbnail = fo_thumbnail f\<rparr>"

subsection \<open>Eager expansion: the two \<^verbatim>\<open>_fast\<close> functions\<close>

text \<open>
  What \<^verbatim>\<open>ytdl_playlist.extract_info\<close> gives for a playlist URL: an exception, \<^verbatim>\<open>None\<close>, a
  record without \<^verbatim>\<open>entries\<close> (then \<^verbatim>\<open>process_youtube\<close> is asked, with its answer here), or the
  entries, some of which may be \<^verbatim>\<open>None\<close>.
\<close>

datatype playlist_data = ExtractFailed | NoData | NotAPlaylist "found option" | Entries "yt_entry option list"

text \<open>The loop \<^verbatim>\<open>for entry in entries[:50]\<close>, with \<^verbatim>\<open>continue\<close> on a falsy entry.\<close>

fun songs_of_entries :: "nat \<Rightarrow> nat \<Rightarrow> yt_entry option list \<Rightarrow> song list" where
  "songs_of_entries r i [] = []"
| "songs_of_entries r i (None # es) = songs_of_entries r i es"
| "songs_of_entries r i (Some e # es) = song_of_entry r i e # songs_of_entries r (Suc i) es"

text \<open>
  \<^verbatim>\<open>process_youtube_playlist_fast\<close>. When the extraction raises, the handler prints and the
  final \<^verbatim>\<open>return songs, total_count\<close> reads a variable that was never assigned.
\<close>

definition process_youtube_playlist_fast :: "playlist_data \<Rightarrow> nat \<Rightarrow> nat \<Rightarrow> error + song list \<times> nat" where
  "process_youtube_playlist_fast data r i =
     (case data of
        ExtractFailed \<Rightarrow> Inl UnboundTotalCount
      | NoData \<Rightarrow> Inr ([], 0)
      | NotAPlaylist None \<Rightarrow> Inr ([], 1)
      | NotAPlaylist (Some f) \<Rightarrow> Inr ([song_of_found r i Youtube f], 1)
      | Entries es \<Rightarrow> Inr (songs_of_entries r i (take 50 es), length es))"

text \<open>
  The thumbnail expression of the playlist branch:
  \<^verbatim>\<open>track.get('album', {}).get('images', [{}])[0].get('url') if track.get('album') else None\<close>;
  it raises on an empty image list.
\<close>

definition track_thumbnail :: "track \<Rightarrow> error + string option" where
  "track_thumbnail t =
     (case tr_album t of None \<Rightarrow> Inr None | Some [] \<Rightarrow> Inl BadItem | Some (i # _) \<Rightarrow> Inr i)"

definition pending_song :: "nat \<Rightarrow> nat \<Rightarrow> string \<Rightarrow> string option \<Rightarrow> song" where
  "pending_song r i q th =
     \<lparr>oid = i, title = q, url = ''spotify:search:'' @ q, duration = ''Unknown'', requester = r,
      source_type = Spotify, thumbnail = th\<rparr>"

text \<open>
  The loop \<^verbatim>\<open>for item in all_tracks[:50]\<close>. An exception inside it (no artist, no image)
  leaves the loop for the outer handler, and the songs built so far are returned.
\<close>

fun songs_of_tracks :: "nat \<Rightarrow> nat \<Rightarrow> track option list \<Rightarrow> song list" where
  "songs_of_tracks r i [] = []"
| "songs_of_tracks r i (None # ts) = songs_of_tracks r i ts"
| "songs_of_tracks r i (Some t # ts) =
     (case truthy_url (tr_name t) of
        None \<Rightarrow> songs_of_tracks r i ts
      | Some n \<Rightarrow>
          (case tr_artists t of
             [] \<Rightarrow> []
           | a # _ \<Rightarrow>
               (case track_thumbnail t of
                  Inl _ \<Rightarrow> []
                | Inr th \<Rightarrow> pending_song r i (n @ '' '' @ a) th # songs_of_tracks r (Suc i) ts)))"

text \<open>The loop \<^verbatim>\<open>for track in album['tracks']['items'][:50]\<close>; \<^verbatim>\<open>track['name']\<close> raises when absent.\<close>

fun songs_of_album :: "nat \<Rightarrow> nat \<Rightarrow> string \<Rightarrow> string option \<Rightarrow> track list \<Rightarrow> song list" where
  "songs_of_album r i artist th [] = []"
| "songs_of_album r i artist th (t # ts) =
     (case tr_name t of
        None \<Rightarrow> []
      | Some n \<Rightarrow> pending_song r i (n @ '' '' @ artist) th # songs_of_album r (Suc i) artist th ts)"

text \<open>
  What the Spotify client answers: an exception, a playlist (all its items, after the
  paging loop, and its \<^verbatim>\<open>total\<close>), or an album (its tracks, the first artist's name, the
  first image's URL and \<^verbatim>\<open>total_tracks\<close>).
\<close>

datatype spotify_data =
    SpotifyRaises
  | SpotifyPlaylist "track option list" nat
  | SpotifyAlbum "track list" string "string option" nat

definition process_spotify_playlist_fast :: "bool \<Rightarrow> spotify_data \<Rightarrow> nat \<Rightarrow> nat \<Rightarrow> song list \<times> nat" where
  "process_spotify_playlist_fast available data r i =
     (if \<not> available then ([], 0)
      else (case data of
              SpotifyRaises \<Rightarrow> ([], 0)
            | SpotifyPlaylist items n \<Rightarrow> (songs_of_tracks r i (take 50 items), n)
            | SpotifyAlbum items artist th n \<Rightarrow> (songs_of_album r i artist th (take 50 items), n)))"

text \<open>The loop of \<^verbatim>\<open>play\<close> that appends what was found.\<close>

definition enqueue :: "song list \<Rightarrow> player \<Rightarrow> player" where
  "enqueue songs p = p\<lparr>queue := queue p @ songs\<rparr>"

subsection \<open>Lazy expansion: \<^verbatim>\<open>load_next_from_playlist\<close>\<close>

text \<open>
  The search query of one Spotify item: \<open>Inl\<close> when building it raises, \<open>Inr None\<close> for an
  item without a named track (the index advances, nothing is added).
\<close>

definition spotify_query :: "bool \<Rightarrow> sp_item \<Rightarrow> error + string option" where
  "spotify_query album item =
     (if album then
        (case item of
           AlbumItem t artist \<Rightarrow> (case tr_name t of None \<Rightarrow> Inl BadItem | Some n \<Rightarrow> Inr (Some (n @ '' '' @ artist)))
         | PlaylistItem _ \<Rightarrow> Inl BadItem)
      else
        (case item of
           AlbumItem _ _ \<Rightarrow> Inl BadItem
         | PlaylistItem None \<Rightarrow> Inr None
         | PlaylistItem (Some t) \<Rightarrow>
             (case truthy_url (tr_name t) of
                None \<Rightarrow> Inr None
              | Some n \<Rightarrow> (case tr_artists t of [] \<Rightarrow> Inl BadItem | a # _ \<Rightarrow> Inr (Some (n @ '' '' @ a))))))"

definition next_index :: "playlist \<Rightarrow> player \<Rightarrow> player" where
  "next_index pl p = p\<lparr>pending_playlist := Some (pl\<lparr>current_index := current_index pl + 1\<rparr>)\<rparr>"

definition load_next_from_playlist :: "world \<Rightarrow> player \<Rightarrow> player" where
  "load_next_from_playlist w p =
     (case pending_playlist p of
        None \<Rightarrow> p
      | Some pl \<Rightarrow>
          if is_spotify pl then
            (if length (tracks pl) \<le> current_index pl then p\<lparr>pending_playlist := None\<rparr>
             else (case spotify_query (is_album pl) (tracks pl ! current_index pl) of
                     Inl _ \<Rightarrow> say ErrorLoadingNext p
                   | Inr None \<Rightarrow> next_index pl p
                   | Inr (Some q) \<Rightarrow>
                       (case search w (clock p) q of
                          None \<Rightarrow> next_index pl (say (LoadingNext q) p)
                        | Some f \<Rightarrow>
                            next_index pl (say (LoadingNext q)
                              (p\<lparr>queue := queue p @ [song_of_found (pl_requester pl) (fresh p) Spotify f],
                                 fresh := Suc (fresh p)\<rparr>)))))
          else
            (if length (entries pl) \<le> current_index pl then p\<lparr>pending_playlist := None\<rparr>
             else (case entries pl ! current_index pl of
                     None \<Rightarrow> next_index pl p
                   | Some e \<Rightarrow>
                       next_index pl (say (LoadingNext (title (song_of_entry (pl_requester pl) (fresh p) e)))
                         (p\<lparr>queue := queue p @ [song_of_entry (pl_requester pl) (fresh p) e],
                            fresh := Suc (fresh p)\<rparr>)))))"

fun load_times :: "nat \<Rightarrow> world \<Rightarrow> player \<Rightarrow> player" where
  "load_times 0 w p = p"
| "load_times (Suc n) w p = load_times n w (tick (load_next_from_playlist w p))"

subsection \<open>Prefetch: \<^verbatim>\<open>preload_next_song\<close>\<close>

text \<open>\<^verbatim>\<open>s.replace(pat, '')\<close>: every occurrence, left to right.\<close>

function remove_all :: "string \<Rightarrow> string \<Rightarrow> string" where
  "remove_all pat s =
     (if s = [] \<or> pat = [] then s
      else if starts_with pat s then remove_all pat (drop (length pat) s)
      else hd s # remove_all pat (tl s))"
  by pat_completeness auto
termination
  by (relation "measure (\<lambda>(pat, s). length s)") auto

declare remove_all.simps [simp del]

definition resolved_by :: "found \<Rightarrow> song \<Rightarrow> song" where
  "resolved_by f s =
     s\<lparr>url := fo_url f, title := fo_title f, duration := fo_duration f, thumbnail := fo_thumbnail f\<rparr>"

text \<open>
  An assignment to the fields of a \<^verbatim>\<open>Song\<close> object changes it wherever the player holds it:
  in the queue or as the current song.
\<close>

definition update_song :: "nat \<Rightarrow> (song \<Rightarrow> song) \<Rightarrow> player \<Rightarrow> player" where
  "update_song i f p =
     p\<lparr>queue := map (\<lambda>s. if oid s = i then f s else s) (queue p),
       current := map_option (\<lambda>s. if oid s = i then f s else s) (current p)\<rparr>"

text \<open>
  The coroutine is cut at its \<^verbatim>\<open>await\<close>s, where other coroutines of the event loop run.
  \<open>preload_begin\<close> is the part before the first one: it fixes the key from the song then at
  the head of the queue and says what is awaited next, the search of a search-pending
  Spotify song or the resolution of a URL; \<open>None\<close> is a \<^verbatim>\<open>return\<close> (empty queue, key already
  cached, local file).
\<close>

datatype pending_preload =
    AwaitSearch "string \<times> nat" nat string
  | AwaitResolve "string \<times> nat" string

definition preload_begin :: "player \<Rightarrow> pending_preload option" where
  "preload_begin p =
     (case queue p of
        [] \<Rightarrow> None
      | next_song # _ \<Rightarrow>
          if map_of (preloaded_sources p) (song_key next_song) \<noteq> None then None
          else if source_type next_song = Local then None
          else if search_pending next_song
            then Some (AwaitSearch (song_key next_song) (oid next_song) (url next_song))
          else Some (AwaitResolve (song_key next_song) (url next_song)))"

text \<open>
  After the search: the song object is rewritten when something was found, and the URL to
  resolve is the song's URL after that.
\<close>

definition preload_searched :: "nat \<Rightarrow> string \<Rightarrow> found option \<Rightarrow> player \<Rightarrow> string \<times> player" where
  "preload_searched i u r p =
     (case r of None \<Rightarrow> (u, p) | Some f \<Rightarrow> (fo_url f, update_song i (resolved_by f) p))"

text \<open>
  After the resolution: \<^verbatim>\<open>self.preloaded_sources[song_key] = source\<close>, whatever the queue
  is by then; an exception of the resolution is printed.
\<close>

definition preload_finish :: "string \<times> nat \<Rightarrow> error + audio_source \<Rightarrow> player \<Rightarrow> player" where
  "preload_finish k r p =
     (case r of
        Inl _ \<Rightarrow> say PreloadError p
      | Inr src \<Rightarrow> say PreloadedSong (p\<lparr>preloaded_sources := AList.update k src (preloaded_sources p)\<rparr>))"

text \<open>The whole coroutine when nothing else runs in between.\<close>

definition preload_next_song :: "world \<Rightarrow> player \<Rightarrow> player" where
  "preload_next_song w p =
     (case preload_begin p of
        None \<Rightarrow> p
      | Some (AwaitResolve k u) \<Rightarrow> preload_finish k (fst (from_url (resolve w (clock p)) u)) p
      | Some (AwaitSearch k i u) \<Rightarrow>
          (case preload_searched i u (search w (clock p) (remove_all ''spotify:search:'' u)) p of
             (u', p') \<Rightarrow> preload_finish k (fst (from_url (resolve w (clock p)) u')) p'))"

subsection \<open>Advance: \<^verbatim>\<open>play_next\<close>\<close>

definition reinsert :: "player \<Rightarrow> player" where
  "reinsert p =
     (case current p of
        None \<Rightarrow> p
      | Some c \<Rightarrow>
          if loop p then p\<lparr>queue := c # queue p\<rparr>
          else if loop_queue p then p\<lparr>queue := queue p @ [c]\<rparr>
          else p)"

text \<open>
  The first part of the \<^verbatim>\<open>try\<close> block: the source of the song \<open>c\<close> just popped, at time
  \<open>t\<close>. The key was computed right after the pop. A hit takes the source out of the
  dictionary; a search-pending Spotify song is searched and rewritten first.
\<close>

definition obtain_source :: "world \<Rightarrow> nat \<Rightarrow> song \<Rightarrow> player \<Rightarrow> (error + audio_source) \<times> player" where
  "obtain_source w t c p =
     (case map_of (preloaded_sources p) (song_key c) of
        Some src \<Rightarrow>
          (Inr src, say (UsingPreloaded (title c))
             (p\<lparr>preloaded_sources := AList.delete (song_key c) (preloaded_sources p)\<rparr>))
      | None \<Rightarrow>
          if source_type c = Local then (Inr (LocalFile (url c)), p)
          else if search_pending c then
            (case search w t (remove_all ''spotify:search:'' (url c)) of
               None \<Rightarrow> (fst (from_url (resolve w t) (url c)), p)
             | Some f \<Rightarrow> (fst (from_url (resolve w t) (fo_url f)), p\<lparr>current := Some (resolved_by f c)\<rparr>))
          else (fst (from_url (resolve w t) (url c)), p))"

text \<open>
  The start of \<^verbatim>\<open>play_next\<close>: the reinsertion of the current song by the loop mode, and one
  awaited refill when the queue is empty and a playlist is pending.
\<close>

definition next_song :: "world \<Rightarrow> player \<Rightarrow> player" where
  "next_song w p =
     (let p1 = reinsert p
      in if queue p1 = [] \<and> pending_playlist p1 \<noteq> None then load_next_from_playlist w p1 else p1)"

text \<open>
  \<^verbatim>\<open>self.current = self.queue.popleft()\<close> for a queue \<open>c # rest\<close>, the background refill when
  a playlist is pending, and the line printed. The test \<^verbatim>\<open>if not self.current\<close> after the
  pop is never true of a \<^verbatim>\<open>Song\<close> object and is left out.
\<close>

definition pop_song :: "song \<Rightarrow> song list \<Rightarrow> player \<Rightarrow> player" where
  "pop_song c rest p =
     (let p3 = p\<lparr>current := Some c, queue := rest\<rparr>;
          p4 = (if pending_playlist p3 \<noteq> None then spawn LoadNextFromPlaylist p3 else p3)
      in tick (say (PlayingFromQueue (title c)) p4))"

text \<open>
  The \<^verbatim>\<open>try\<close> block at time \<open>t\<close>: \<open>True\<close> when \<^verbatim>\<open>voice_client.play\<close> was reached and took the
  source (then the prefetch of the new head is spawned if there is one), \<open>False\<close> when the
  resolution or \<^verbatim>\<open>voice_client.play\<close> raised.
\<close>

definition start_playing :: "world \<Rightarrow> nat \<Rightarrow> song \<Rightarrow> player \<Rightarrow> bool \<times> player" where
  "start_playing w t c p =
     (case obtain_source w t c p of
        (Inl _, p6) \<Rightarrow> (False, p6)
      | (Inr src, p6) \<Rightarrow>
          if play_ok w t then
            (True, let p7 = say (NowPlaying (case current p6 of None \<Rightarrow> title c | Some s \<Rightarrow> title s)) p6
                   in if queue p7 \<noteq> [] then spawn PreloadNextSong p7 else p7)
          else (False, p6))"

text \<open>
  \<^verbatim>\<open>play_next\<close> calls itself in its exception handler, with nothing that counts the calls;
  the first argument of the model is the depth of recursion it may use, and \<open>None\<close> is a
  run that needs more. The recursion limit of the interpreter is not part of the program
  and is not modelled.
\<close>

fun play_next :: "nat \<Rightarrow> world \<Rightarrow> player \<Rightarrow> player option" where
  "play_next 0 w p = None"
| "play_next (Suc n) w p =
     (let p2 = next_song w p
      in case queue p2 of
           [] \<Rightarrow> Some (say QueueIsEmpty (p2\<lparr>current := None, preloaded_sources := []\<rparr>))
         | c # rest \<Rightarrow>
             (let p5 = pop_song c rest p2
              in if \<not> voice w (clock p) then Some (say NoVoiceClient p5)
                 else (case start_playing w (clock p) c p5 of
                         (True, p7) \<Rightarrow> Some p7
                       | (False, p6) \<Rightarrow> play_next n w (say ErrorPlayingSong p6))))"

text \<open>The event loop runs the spawned tasks, here each one to its end before the next.\<close>

definition run_task :: "world \<Rightarrow> player \<Rightarrow> task \<Rightarrow> player" where
  "run_task w p t =
     tick (case t of PreloadNextSong \<Rightarrow> preload_next_song w p
                   | LoadNextFromPlaylist \<Rightarrow> load_next_from_playlist w p)"

definition settle :: "world \<Rightarrow> player \<Rightarrow> player" where
  "settle w p = foldl (run_task w) (p\<lparr>spawned := []\<rparr>) (spawned p)"

definition advance :: "nat \<Rightarrow> world \<Rightarrow> player \<Rightarrow> player option" where
  "advance n w p = map_option (settle w) (play_next n w p)"

text \<open>\<open>m\<close> calls of \<^verbatim>\<open>play_next\<close> in a row; and \<open>m\<close> advances, each with its tasks.\<close>

fun play_next_times :: "nat \<Rightarrow> nat \<Rightarrow> world \<Rightarrow> player \<Rightarrow> player option" where
  "play_next_times 0 n w p = Some p"
| "play_next_times (Suc m) n w p =
     (case play_next n w p of None \<Rightarrow> None | Some p' \<Rightarrow> play_next_times m n w p')"

fun advance_times :: "nat \<Rightarrow> nat \<Rightarrow> world \<Rightarrow> player \<Rightarrow> player option" where
  "advance_times 0 n w p = Some p"
| "advance_times (Suc m) n w p =
     (case advance n w p of None \<Rightarrow> None | Some p' \<Rightarrow> advance_times m n w p')"

subsection \<open>The commands\<close>

datatype reply =
    InvalidPosition nat | RemovedSong string | IndexError
  | NotEnoughSongs | QueueShuffled | QueueCleared | StoppedAndCleared

text \<open>\<^verbatim>\<open>list.pop(i)\<close> for \<open>i \<ge> 0\<close>; \<open>None\<close> is its \<^verbatim>\<open>IndexError\<close>.\<close>

fun pop_index :: "nat \<Rightarrow> 'a list \<Rightarrow> ('a \<times> 'a list) option" where
  "pop_index i [] = None"
| "pop_index 0 (x # xs) = Some (x, xs)"
| "pop_index (Suc i) (x # xs) =
     (case pop_index i xs of None \<Rightarrow> None | Some (y, ys) \<Rightarrow> Some (y, x # ys))"

definition remove :: "int \<Rightarrow> player \<Rightarrow> reply \<times> player" where
  "remove position p =
     (if position < 1 \<or> int (length (queue p)) < position
      then (InvalidPosition (length (queue p)), p)
      else (case pop_index (nat (position - 1)) (queue p) of
              None \<Rightarrow> (IndexError, p)
            | Some (removed, queue_list) \<Rightarrow> (RemovedSong (title removed), p\<lparr>queue := queue_list\<rparr>)))"

text \<open>
  \<^verbatim>\<open>random.shuffle\<close> is the argument \<open>rnd\<close>: the permutation the generator picks.
\<close>

definition shuffle :: "(song list \<Rightarrow> song list) \<Rightarrow> player \<Rightarrow> reply \<times> player" where
  "shuffle rnd p =
     (if length (queue p) < 2 then (NotEnoughSongs, p)
      else (QueueShuffled,
            spawn PreloadNextSong (p\<lparr>queue := rnd (queue p), preloaded_sources := []\<rparr>)))"

definition clear :: "player \<Rightarrow> reply \<times> player" where
  "clear p = (QueueCleared, p\<lparr>queue := [], preloaded_sources := []\<rparr>)"

text \<open>
  The field updates of \<^verbatim>\<open>stop\<close>. Its \<^verbatim>\<open>voice_client.stop()\<close> makes the transport call
  \<^verbatim>\<open>play_next\<close> once more, which is a step of its own.
\<close>

definition stop :: "player \<Rightarrow> reply \<times> player" where
  "stop p =
     (StoppedAndCleared,
      p\<lparr>queue := [], current := None, loop := False, loop_queue := False, preloaded_sources := []\<rparr>)"

datatype loop_mode = SongMode | QueueMode | OffMode

definition set_loop :: "loop_mode \<Rightarrow> player \<Rightarrow> player" where
  "set_loop m p =
     (case m of
        SongMode \<Rightarrow> p\<lparr>loop := True, loop_queue := False\<rparr>
      | QueueMode \<Rightarrow> p\<lparr>loop := False, loop_queue := True\<rparr>
      | OffMode \<Rightarrow> p\<lparr>loop := False, loop_queue := False\<rparr>)"

section \<open>Concrete inputs, and the words of the specification\<close>

definition example_locator :: string where
  "example_locator = ''https://www.youtube.com/watch?v=dQw4w9WgXcQ''"

definition search_locator :: string where
  "search_locator = ''spotify:search:Never Gonna Give You Up Rick Astley''"

definition info0 :: info where
  "info0 = \<lparr>i_title = Some ''Never Gonna Give You Up'', i_webpage_url = Some example_locator\<rparr>"


text \<open>The download works and the metadata is there.\<close>

definition env_ok :: resolve_env where
  "env_ok = \<lparr>cli = ProcExit 0, downloaded = [''/tmp/ytdl_dQw4w9WgXcQ.mp3''], meta_cli = ExtractInfo info0,
     meta_proxy = ExtractInfo info0, piped_get = (\<lambda>_. TimedOut), invidious_get = (\<lambda>_. NetError)\<rparr>"



text \<open>Nothing works.\<close>

definition env_down :: resolve_env where
  "env_down = \<lparr>cli = ProcExit 1, downloaded = [], meta_cli = ExtractRaises, meta_proxy = ExtractRaises,
     piped_get = (\<lambda>_. TimedOut), invidious_get = (\<lambda>_. NetError)\<rparr>"

definition yt_song :: "nat \<Rightarrow> string \<Rightarrow> song" where
  "yt_song i t = \<lparr>oid = i, title = t, url = ''https://www.youtube.com/watch?v=dQw4w9WgXcQ'',
     duration = ''3:33'', requester = 7, source_type = Youtube, thumbnail = None\<rparr>"

definition world_ok :: world where
  "world_ok = \<lparr>resolve = (\<lambda>_. env_ok), search = (\<lambda>_ _. None), voice = (\<lambda>_. True), play_ok = (\<lambda>_. True)\<rparr>"

definition world_down :: world where
  "world_down = \<lparr>resolve = (\<lambda>_. env_down), search = (\<lambda>_ _. None), voice = (\<lambda>_. True), play_ok = (\<lambda>_. True)\<rparr>"

text \<open>A player with a current song and two queued ones, nothing prefetched.\<close>

definition player_ab :: player where
  "player_ab = new_player\<lparr>queue := [yt_song 1 ''a'', yt_song 2 ''b''], current := Some (yt_song 0 ''x'')\<rparr>"

text \<open>
  What \<^verbatim>\<open>/play\<close> of three songs leaves when the download works: after \<^verbatim>\<open>play_next\<close> alone
  (\<open>started_x\<close>, the prefetch task spawned), and after the prefetch of the new head has
  completed as well (\<open>playing_x\<close>).
\<close>

definition started_x :: player where
  "started_x = \<lparr>queue = [yt_song 1 ''a'', yt_song 2 ''b''], current = Some (yt_song 0 ''x''),
     loop = False, loop_queue = False, pending_playlist = None, preloaded_sources = [],
     clock = 1, fresh = 0, spawned = [PreloadNextSong],
     out = [PlayingFromQueue ''x'', NowPlaying ''x'']\<rparr>"

definition playing_x :: player where
  "playing_x = \<lparr>queue = [yt_song 1 ''a'', yt_song 2 ''b''], current = Some (yt_song 0 ''x''),
     loop = False, loop_queue = False, pending_playlist = None,
     preloaded_sources = [(song_key (yt_song 1 ''a''), Downloaded ''/tmp/ytdl_dQw4w9WgXcQ.mp3'' info0)],
     clock = 2, fresh = 0, spawned = [],
     out = [PlayingFromQueue ''x'', NowPlaying ''x'', PreloadedSong]\<rparr>"

text \<open>
  A YouTube playlist of 60 entries, and the songs of its first 50 for requester 7, the
  objects numbered from 0.
\<close>

definition entry0 :: yt_entry where
  "entry0 = \<lparr>en_id = Some ''dQw4w9WgXcQ'', en_title = Some ''Never Gonna Give You Up'',
     en_duration = Some 213, en_webpage_url = None, en_url = None, en_thumbnail = None\<rparr>"

definition sixty_entries :: playlist_data where
  "sixty_entries = Entries (replicate 60 (Some entry0))"

definition first_fifty :: "song list" where
  "first_fifty = map (\<lambda>i. song_of_entry 7 i entry0) [0..<50]"







text \<open>What a run prints for the songs it gives up on, one after the other.\<close>

definition skipped :: "song list \<Rightarrow> notice list" where
  "skipped q = concat (map (\<lambda>s. [PlayingFromQueue (title s), ErrorPlayingSong]) q)"

text \<open>Twelve queued songs; and a player that repeats its current song, with an empty queue.\<close>

definition twelve_songs :: player where
  "twelve_songs = enqueue (map (\<lambda>i. yt_song i ''s'') [0..<12]) new_player"

definition looping_x :: player where
  "looping_x = new_player\<lparr>current := Some (yt_song 0 ''x''), loop := True\<rparr>"

text \<open>The player of \<open>player_ab\<close> with repeat-song on.\<close>

definition looping_ab :: player where
  "looping_ab = player_ab\<lparr>loop := True\<rparr>"

subsection \<open>Runs of operations\<close>

text \<open>
  The operations on one player: the commands, and an advance (by the transport's callback
  or by \<^verbatim>\<open>play\<close>). An advance and a shuffle are taken together with the tasks they spawn,
  each run to its end before the next operation; a skip clears repeat-song and advances.
\<close>

datatype op =
    Enqueue "song list" | Advance nat | Skip nat | Shuffle "song list \<Rightarrow> song list"
  | Clear | Stop | SetLoop loop_mode | Remove int

fun step :: "world \<Rightarrow> op \<Rightarrow> player \<Rightarrow> player option" where
  "step w (Enqueue songs) p = Some (enqueue songs p)"
| "step w (Advance n) p = advance n w p"
| "step w (Skip n) p = advance n w (p\<lparr>loop := False\<rparr>)"
| "step w (Shuffle rnd) p = Some (settle w (snd (shuffle rnd p)))"
| "step w Clear p = Some (snd (clear p))"
| "step w Stop p = Some (snd (stop p))"
| "step w (SetLoop m) p = Some (set_loop m p)"
| "step w (Remove i) p = Some (snd (remove i p))"

fun run :: "world \<Rightarrow> op list \<Rightarrow> player \<Rightarrow> player option" where
  "run w [] p = Some p"
| "run w (x # xs) p = (case step w x p of None \<Rightarrow> None | Some p' \<Rightarrow> run w xs p')"

text \<open>
  The invariant of the specification: the prefetch dictionary is empty, or it has one entry
  and that entry is keyed by the song at the head of the queue.
\<close>

definition slot_ok :: "player \<Rightarrow> bool" where
  "slot_ok p =
     (case preloaded_sources p of
        [] \<Rightarrow> True
      | [(k, src)] \<Rightarrow> (case queue p of [] \<Rightarrow> False | h # _ \<Rightarrow> k = song_key h)
      | _ \<Rightarrow> False)"

text \<open>
  The states and operations the invariant is proved for: no playlist pending and no
  search-pending song held; no removal, no search-pending song enqueued, and a shuffle that
  returns songs of the queue it was given.
\<close>

definition settled :: "player \<Rightarrow> bool" where
  "settled p =
     (pending_playlist p = None \<and> list_all (\<lambda>s. \<not> search_pending s) (queue p) \<and>
      (case current p of None \<Rightarrow> True | Some s \<Rightarrow> \<not> search_pending s))"

fun gentle :: "op \<Rightarrow> bool" where
  "gentle (Enqueue songs) = list_all (\<lambda>s. \<not> search_pending s) songs"
| "gentle (Shuffle rnd) = (\<forall>q. set (rnd q) \<subseteq> set q)"
| "gentle (Remove i) = False"
| "gentle _ = True"

text \<open>A world in which the guild has no voice client at time 2, and a run of four operations.\<close>

definition world_gap :: world where
  "world_gap = \<lparr>resolve = (\<lambda>_. env_ok), search = (\<lambda>_ _. None), voice = (\<lambda>t. t \<noteq> 2), play_ok = (\<lambda>_. True)\<rparr>"

definition gap_ops :: "op list" where
  "gap_ops = [Enqueue [yt_song 0 ''x'', yt_song 1 ''a'', yt_song 2 ''b'', yt_song 3 ''c''],
              Advance 1, Advance 1, Advance 1]"

text \<open>A run with a voice client throughout: three songs, an advance, a shuffle, an advance.\<close>

definition quiet_ops :: "op list" where
  "quiet_ops = [Enqueue [yt_song 0 ''x'', yt_song 1 ''a'', yt_song 2 ''b''],
                Advance 1, Shuffle rev, Advance 1]"

text \<open>
  The playlist is played: its songs are appended and the first starts; queue-repeat is
  switched on, the transport calls back, and the user skips.
\<close>

definition playlist_ops :: "op list" where
  "playlist_ops = [Enqueue first_fifty, Advance 1, SetLoop QueueMode, Advance 1, Skip 1]"

section \<open>Properties\<close>

subsection \<open>The cascade\<close>

lemma piped_loop_fst:
  "fst (piped_loop get vid insts) =
     (case List.map_filter (\<lambda>inst. piped_instance (get (inst @ ''/streams/'' @ vid))) insts of [] \<Rightarrow> None | u # _ \<Rightarrow> Some u)"
  by (induction insts) (auto simp: List.map_filter_simps split: option.splits prod.splits)

lemma invidious_loop_fst:
  "fst (invidious_loop get vid insts) =
     (case List.map_filter (\<lambda>inst. invidious_instance (get (inst @ ''/api/v1/videos/'' @ vid))) insts of [] \<Rightarrow> None | u # _ \<Rightarrow> Some u)"
  by (induction insts) (auto simp: List.map_filter_simps split: option.splits prod.splits)



lemma download_stage_ok: "fst (download_stage env) \<noteq> None \<longleftrightarrow> download_ok env"
  by (auto simp: download_stage_def download_ok_def split: proc_result.splits list.splits sum.splits option.splits)

lemma download_stage_trace: "filter is_attempt (snd (download_stage env)) = [RunCli]"
  by (auto simp: download_stage_def is_attempt_def split: proc_result.splits list.splits sum.splits option.splits)






lemma proxy_stage_fst:
  "fst (proxy_stage env vid) =
     (case first_stream env vid of None \<Rightarrow> None
      | Some u \<Rightarrow> (case first_data (meta_proxy env) of Inr (Some d) \<Rightarrow> Some (ProxyStream u d) | _ \<Rightarrow> None))"
  using piped_loop_fst[of "piped_get env" vid PIPED_INSTANCES]
        invidious_loop_fst[of "invidious_get env" vid INVIDIOUS_INSTANCES]
  by (auto simp: proxy_stage_def first_stream_def get_youtube_stream_piped_def get_youtube_stream_invidious_def
      split: prod.splits option.splits sum.splits list.splits)



lemma from_url_fallback:
  assumes "\<not> download_ok env"
  shows "fst (from_url env loc) =
        (case video_id_match loc of
           None \<Rightarrow> Inl AllMethodsFailed
         | Some vid \<Rightarrow>
             (case first_stream env vid of
                None \<Rightarrow> Inl AllMethodsFailed
              | Some u \<Rightarrow>
                  (case first_data (meta_proxy env) of
                     Inr (Some d) \<Rightarrow> Inr (ProxyStream u d)
                   | _ \<Rightarrow> Inl AllMethodsFailed)))"
proof -
  from assms have "fst (download_stage env) = None" using download_stage_ok by blast
  then obtain t1 where d: "download_stage env = (None, t1)" by (cases "download_stage env") simp
  show ?thesis
  proof (cases "video_id_match loc")
    case None
    with d show ?thesis by (simp add: from_url_def)
  next
    case (Some vid)
    obtain r2 t2 where p: "proxy_stage env vid = (r2, t2)" by force
    with proxy_stage_fst[of env vid] have r2: "r2 = (case first_stream env vid of None \<Rightarrow> None
      | Some u \<Rightarrow> (case first_data (meta_proxy env) of Inr (Some d) \<Rightarrow> Some (ProxyStream u d) | _ \<Rightarrow> None))"
      by simp
    show ?thesis using d Some p r2
      by (cases r2) (auto simp: from_url_def split: option.splits sum.splits)
  qed
qed



lemma search_locator_id: "video_id_match search_locator = None"
  by (simp add: search_locator_def match_here_def id_at_def id_char_def)





text \<open>
  C9. A locator in which the pattern finds no identifier, and a download path that does not
  return: the resolution ends in the error and its only attempt is the downloader run.
\<close>

theorem from_url_without_identifier:
  "video_id_match loc = None \<Longrightarrow> \<not> download_ok env \<Longrightarrow>
     fst (from_url env loc) = Inl AllMethodsFailed \<and> filter is_attempt (snd (from_url env loc)) = [RunCli]"
proof -
  assume m: "video_id_match loc = None" and n: "\<not> download_ok env"
  from n have "fst (download_stage env) = None" using download_stage_ok by blast
  then obtain t1 where d: "download_stage env = (None, t1)" by (cases "download_stage env") simp
  with m download_stage_trace[of env] show ?thesis by (simp add: from_url_def)
qed

theorem from_url_without_identifier_witness:
  "video_id_match search_locator = None \<and> \<not> download_ok env_down \<and>
   fst (from_url env_down search_locator) = Inl AllMethodsFailed \<and>
   filter is_attempt (snd (from_url env_down search_locator)) = [RunCli]"
proof -
  have n: "\<not> download_ok env_down" by (simp add: download_ok_def env_down_def)
  from from_url_without_identifier[OF search_locator_id n] search_locator_id n show ?thesis by blast
qed

subsection \<open>Removing a queued song\<close>

lemma pop_index_append: "pop_index (length xs) (xs @ x # ys) = Some (x, xs @ ys)"
  by (induction xs) auto

lemma remove_valid:
  "queue p = xs @ x # ys \<Longrightarrow> remove (int (length xs) + 1) p = (RemovedSong (title x), p\<lparr>queue := xs @ ys\<rparr>)"
  using pop_index_append[of xs x ys] by (simp add: remove_def)

lemma split_at:
  "i < length zs \<Longrightarrow> \<exists>xs x ys. zs = xs @ x # ys \<and> length xs = i"
  by (metis id_take_nth_drop length_take min.absorb2 less_imp_le_nat)

lemma remove_keeps_cache: "preloaded_sources (snd (remove position p)) = preloaded_sources p"
  by (simp add: remove_def split: option.splits prod.splits)

lemma shuffle_clears_cache:
  "2 \<le> length (queue p) \<Longrightarrow> preloaded_sources (snd (shuffle rnd p)) = []"
  by (simp add: shuffle_def spawn_def)

lemma clear_clears_cache: "preloaded_sources (snd (clear p)) = [] \<and> queue (snd (clear p)) = []"
  by (simp add: clear_def)

text \<open>
  C10. A position below 1 or above the length of the queue gives the error reply and the
  same player. Every other position splits the queue around one song; the reply names that
  song and the new queue is the songs before it followed by the songs after it. The current
  song is the same in every case.
\<close>

theorem remove_by_position:
  "(position < 1 \<or> int (length (queue p)) < position \<longrightarrow>
      remove position p = (InvalidPosition (length (queue p)), p)) \<and>
   (1 \<le> position \<and> position \<le> int (length (queue p)) \<longrightarrow>
      (\<exists>xs x ys. queue p = xs @ x # ys \<and> int (length xs) + 1 = position)) \<and>
   (queue p = xs @ x # ys \<longrightarrow>
      remove (int (length xs) + 1) p = (RemovedSong (title x), p\<lparr>queue := xs @ ys\<rparr>)) \<and>
   current (snd (remove position p)) = current p"
proof (intro conjI impI)
  assume "position < 1 \<or> int (length (queue p)) < position"
  then show "remove position p = (InvalidPosition (length (queue p)), p)"
    by (simp add: remove_def)
next
  assume v: "1 \<le> position \<and> position \<le> int (length (queue p))"
  then have "nat (position - 1) < length (queue p)" by linarith
  then obtain xs x ys where d: "queue p = xs @ x # ys" "length xs = nat (position - 1)"
    using split_at by blast
  with v have "int (length xs) + 1 = position" by simp
  with d show "\<exists>xs x ys. queue p = xs @ x # ys \<and> int (length xs) + 1 = position" by blast
next
  assume "queue p = xs @ x # ys"
  then show "remove (int (length xs) + 1) p = (RemovedSong (title x), p\<lparr>queue := xs @ ys\<rparr>)"
    by (rule remove_valid)
next
  show "current (snd (remove position p)) = current p"
    by (simp add: remove_def split: option.splits prod.splits)
qed

theorem remove_by_position_witness:
  "remove 0 player_ab = (InvalidPosition 2, player_ab) \<and>
   remove 3 player_ab = (InvalidPosition 2, player_ab) \<and>
   remove 2 player_ab = (RemovedSong ''b'', player_ab\<lparr>queue := [yt_song 1 ''a'']\<rparr>) \<and>
   current (snd (remove 2 player_ab)) = Some (yt_song 0 ''x'')"
proof -
  have q: "queue player_ab = [yt_song 1 ''a''] @ yt_song 2 ''b'' # []"
    by (simp add: player_ab_def new_player_def)
  have l: "length (queue player_ab) = 2" "current player_ab = Some (yt_song 0 ''x'')"
    by (simp_all add: player_ab_def new_player_def)
  from remove_by_position[of 0 player_ab] l
  have a: "remove 0 player_ab = (InvalidPosition 2, player_ab)" by simp
  from remove_by_position[of 3 player_ab] l
  have b: "remove 3 player_ab = (InvalidPosition 2, player_ab)" by simp
  from remove_by_position[of 2 player_ab "[yt_song 1 ''a'']" "yt_song 2 ''b''" "[]"] q l
  have c: "remove 2 player_ab = (RemovedSong ''b'', player_ab\<lparr>queue := [yt_song 1 ''a'']\<rparr>)"
    "current (snd (remove 2 player_ab)) = Some (yt_song 0 ''x'')"
    by (simp_all add: yt_song_def)
  from a b c show ?thesis by blast
qed

lemmas run_defs = advance_def Let_def reinsert_def enqueue_def new_player_def obtain_source_def
  next_song_def pop_song_def start_playing_def from_url_def download_stage_def settle_def run_task_def preload_next_song_def preload_begin_def
  preload_finish_def song_key_def search_pending_def starts_with_def say_def spawn_def tick_def
  world_ok_def env_ok_def yt_song_def

lemma play_three_started:
  "play_next (Suc 0) world_ok (enqueue [yt_song 0 ''x'', yt_song 1 ''a'', yt_song 2 ''b''] new_player) = Some started_x"
  by (simp add: run_defs started_x_def)

lemma play_three:
  "advance (Suc 0) world_ok (enqueue [yt_song 0 ''x'', yt_song 1 ''a'', yt_song 2 ''b''] new_player) = Some playing_x"
  by (simp add: run_defs playing_x_def)

text \<open>
  C3 at the failing input. Three songs are enqueued and the first one plays, so the second
  one, \<open>a\<close>, is at the head of the queue and prefetched. Removing position 1 makes \<open>b\<close> the
  head, and the dictionary still holds the source of \<open>a\<close>.
\<close>

theorem remove_keeps_prefetch:
  "advance (Suc 0) world_ok (enqueue [yt_song 0 ''x'', yt_song 1 ''a'', yt_song 2 ''b''] new_player) = Some playing_x \<and>
   fst (remove 1 playing_x) = RemovedSong ''a'' \<and>
   queue (snd (remove 1 playing_x)) = [yt_song 2 ''b''] \<and>
   preloaded_sources (snd (remove 1 playing_x)) =
     [(song_key (yt_song 1 ''a''), Downloaded ''/tmp/ytdl_dQw4w9WgXcQ.mp3'' info0)]"
  using play_three by (simp add: remove_def playing_x_def yt_song_def)

subsection \<open>A prefetch that completes after a stop\<close>

text \<open>
  C4, as amended. Whatever the player was doing, after \<^verbatim>\<open>stop\<close> a prefetch that completes
  with a source puts it into the dictionary under the key it fixed when it began, and the
  dictionary then holds that one entry; a prefetch whose resolution failed leaves the
  dictionary empty.
\<close>

theorem prefetch_after_stop:
  "preloaded_sources (preload_finish k (Inr src) (snd (stop p))) = [(k, src)] \<and>
   preloaded_sources (preload_finish k (Inl e) (snd (stop p))) = [] \<and>
   queue (preload_finish k (Inr src) (snd (stop p))) = []"
  by (simp add: preload_finish_def stop_def say_def)

text \<open>
  C4 as it is written fails: the prefetch of \<open>a\<close> is in flight, \<^verbatim>\<open>stop\<close> empties the queue
  and the dictionary, and the completion of the prefetch fills the dictionary again.
\<close>

theorem prefetch_after_stop_counterexample:
  "preload_begin started_x = Some (AwaitResolve (song_key (yt_song 1 ''a'')) (url (yt_song 1 ''a''))) \<and>
   queue (snd (stop started_x)) = [] \<and>
   preloaded_sources (snd (stop started_x)) = [] \<and>
   preloaded_sources
     (preload_finish (song_key (yt_song 1 ''a'')) (fst (from_url env_ok (url (yt_song 1 ''a''))))
        (snd (stop started_x))) =
     [(song_key (yt_song 1 ''a''), Downloaded ''/tmp/ytdl_dQw4w9WgXcQ.mp3'' info0)]"
  by (simp add: started_x_def preload_begin_def stop_def preload_finish_def say_def song_key_def
      search_pending_def yt_song_def from_url_def download_stage_def env_ok_def)

subsection \<open>The eager expansions\<close>

lemma songs_of_entries_length: "length (songs_of_entries r i es) \<le> length es"
  by (induction r i es rule: songs_of_entries.induct) auto

lemma songs_of_tracks_length: "length (songs_of_tracks r i ts) \<le> length ts"
  by (induction r i ts rule: songs_of_tracks.induct) (auto split: option.splits list.splits sum.splits)

lemma songs_of_album_length: "length (songs_of_album r i artist th ts) \<le> length ts"
  by (induction ts arbitrary: i) (auto split: option.splits)

lemma youtube_fast_cap:
  "process_youtube_playlist_fast data r i = Inr (songs, n) \<Longrightarrow> length songs \<le> 50"
  by (auto simp: process_youtube_playlist_fast_def split: playlist_data.splits option.splits
      intro: order_trans[OF songs_of_entries_length])

lemma spotify_fast_cap: "length (fst (process_spotify_playlist_fast available data r i)) \<le> 50"
  by (auto simp: process_spotify_playlist_fast_def split: spotify_data.splits
      intro: order_trans[OF songs_of_tracks_length] order_trans[OF songs_of_album_length])

subsection \<open>The download cache\<close>
















subsection \<open>A queue of songs that cannot be resolved\<close>

lemma next_song_plain:
  "\<not> loop p \<Longrightarrow> \<not> loop_queue p \<Longrightarrow> pending_playlist p = None \<Longrightarrow> next_song w p = p"
  by (simp add: next_song_def reinsert_def split: option.splits)

lemma next_song_repeat:
  "loop p \<Longrightarrow> current p = Some c \<Longrightarrow> next_song w p = p\<lparr>queue := c # queue p\<rparr>"
  by (simp add: next_song_def reinsert_def)

lemma obtain_source_fails:
  assumes "\<forall>t u. isl (fst (from_url (resolve w t) u))"
    and "preloaded_sources p = []" "source_type c \<noteq> Local"
  shows "\<exists>e. (obtain_source w t c p = (Inl e, p) \<or>
              (\<exists>f. search_pending c \<and> obtain_source w t c p = (Inl e, p\<lparr>current := Some (resolved_by f c)\<rparr>)))"
proof -
  have f: "\<exists>e. fst (from_url (resolve w t) u) = Inl e" for u
    using assms(1) by (metis isl_def)
  show ?thesis
  proof (cases "search_pending c")
    case False
    with assms f[of "url c"] show ?thesis by (auto simp: obtain_source_def)
  next
    case True
    show ?thesis
    proof (cases "search w t (remove_all ''spotify:search:'' (url c))")
      case None
      with True assms f[of "url c"] show ?thesis by (auto simp: obtain_source_def)
    next
      case (Some fo)
      with True assms f[of "fo_url fo"] show ?thesis by (auto simp: obtain_source_def)
    qed
  qed
qed

lemma start_playing_fails:
  assumes "\<forall>t u. isl (fst (from_url (resolve w t) u))"
    and "preloaded_sources p = []" "source_type c \<noteq> Local" "current p = Some c"
  shows "\<exists>c'. start_playing w t c p = (False, p\<lparr>current := Some c'\<rparr>) \<and>
              source_type c' = source_type c \<and> oid c' = oid c"
proof -
  from obtain_source_fails[OF assms(1-3), of t] obtain e where
    e: "obtain_source w t c p = (Inl e, p) \<or>
        (\<exists>f. search_pending c \<and> obtain_source w t c p = (Inl e, p\<lparr>current := Some (resolved_by f c)\<rparr>))"
    by blast
  then show ?thesis
  proof
    assume "obtain_source w t c p = (Inl e, p)"
    then have "start_playing w t c p = (False, p\<lparr>current := Some c\<rparr>)"
      using assms(4) by (simp add: start_playing_def)
    then show ?thesis by blast
  next
    assume "\<exists>f. search_pending c \<and> obtain_source w t c p = (Inl e, p\<lparr>current := Some (resolved_by f c)\<rparr>)"
    then obtain f where "obtain_source w t c p = (Inl e, p\<lparr>current := Some (resolved_by f c)\<rparr>)" by blast
    then have "start_playing w t c p = (False, p\<lparr>current := Some (resolved_by f c)\<rparr>)"
      by (simp add: start_playing_def)
    then show ?thesis by (intro exI[of _ "resolved_by f c"]) (simp add: resolved_by_def)
  qed
qed

lemma all_fail_run:
  assumes fails: "\<forall>t u. isl (fst (from_url (resolve w t) u))" and voice: "\<forall>t. voice w t"
  shows "\<not> loop p \<Longrightarrow> \<not> loop_queue p \<Longrightarrow> pending_playlist p = None \<Longrightarrow> preloaded_sources p = [] \<Longrightarrow>
         \<forall>s \<in> set (queue p). source_type s \<noteq> Local \<Longrightarrow>
         \<exists>p'. play_next (Suc (length (queue p))) w p = Some p' \<and> queue p' = [] \<and> current p' = None \<and>
              preloaded_sources p' = [] \<and> out p' = out p @ skipped (queue p) @ [QueueIsEmpty] \<and>
              clock p' = clock p + length (queue p)"
proof (induction "queue p" arbitrary: p)
  case Nil
  then have "next_song w p = p" by (simp add: next_song_plain)
  with Nil show ?case by (simp add: say_def skipped_def)
next
  case (Cons c rest)
  from Cons.prems have ns: "next_song w p = p" by (simp add: next_song_plain)
  let ?p5 = "pop_song c rest p"
  have p5: "queue ?p5 = rest" "current ?p5 = Some c" "preloaded_sources ?p5 = []" "\<not> loop ?p5" "\<not> loop_queue ?p5"
    "pending_playlist ?p5 = None" "out ?p5 = out p @ [PlayingFromQueue (title c)]" "clock ?p5 = Suc (clock p)"
    using Cons.prems by (simp_all add: pop_song_def tick_def say_def)
  from Cons.hyps(2) Cons.prems(5) have nl: "source_type c \<noteq> Local" by (metis list.set_intros(1))
  from start_playing_fails[OF fails p5(3) nl p5(2), of "clock p"] obtain c' where
    sp: "start_playing w (clock p) c ?p5 = (False, ?p5\<lparr>current := Some c'\<rparr>)" by blast
  let ?p6 = "say ErrorPlayingSong (?p5\<lparr>current := Some c'\<rparr>)"
  have p6: "rest = queue ?p6" "\<not> loop ?p6" "\<not> loop_queue ?p6" "pending_playlist ?p6 = None" "preloaded_sources ?p6 = []"
    "out ?p6 = out p @ [PlayingFromQueue (title c), ErrorPlayingSong]" "clock ?p6 = Suc (clock p)"
    using p5 by (simp_all add: say_def)
  have q6: "\<forall>s \<in> set (queue ?p6). source_type s \<noteq> Local"
    using Cons.hyps(2) Cons.prems(5) p6(1) by (metis list.set_intros(2))
  from Cons.hyps(1)[OF p6(1) p6(2) p6(3) p6(4) p6(5) q6] obtain p' where
    r: "play_next (Suc (length (queue ?p6))) w ?p6 = Some p'" "queue p' = []" "current p' = None"
       "preloaded_sources p' = []" "out p' = out ?p6 @ skipped (queue ?p6) @ [QueueIsEmpty]"
       "clock p' = clock ?p6 + length (queue ?p6)" by blast
  have "play_next (Suc (length (queue p))) w p = play_next (Suc (length rest)) w ?p6"
    using Cons.hyps(2)[symmetric] ns voice sp by (simp add: Let_def)
  with r p6 Cons.hyps(2)[symmetric] show ?case by (simp add: skipped_def)
qed

lemma repeat_never_returns:
  assumes fails: "\<forall>t u. isl (fst (from_url (resolve w t) u))" and voice: "\<forall>t. voice w t"
  shows "loop p \<Longrightarrow> current p = Some c \<Longrightarrow> source_type c \<noteq> Local \<Longrightarrow> preloaded_sources p = [] \<Longrightarrow>
         play_next n w p = None"
proof (induction n arbitrary: p c)
  case 0
  then show ?case by simp
next
  case (Suc n)
  from Suc.prems have ns: "next_song w p = p\<lparr>queue := c # queue p\<rparr>" by (simp add: next_song_repeat)
  let ?p5 = "pop_song c (queue p) (p\<lparr>queue := c # queue p\<rparr>)"
  have p5: "current ?p5 = Some c" "preloaded_sources ?p5 = []" "loop ?p5"
    using Suc.prems by (simp_all add: pop_song_def tick_def say_def spawn_def Let_def)
  from start_playing_fails[OF fails p5(2) Suc.prems(3) p5(1), of "clock p"] obtain c' where
    sp: "start_playing w (clock p) c ?p5 = (False, ?p5\<lparr>current := Some c'\<rparr>)"
      "source_type c' = source_type c" by blast
  let ?p6 = "say ErrorPlayingSong (?p5\<lparr>current := Some c'\<rparr>)"
  have "play_next n w ?p6 = None"
    using p5 sp(2) Suc.prems(3) by (intro Suc.IH[of ?p6 c']) (simp_all add: say_def)
  then show ?case using ns voice sp(1) by (simp add: Let_def)
qed

lemma env_down_fails: "isl (fst (from_url env_down u))"
proof -
  have a: "\<not> download_ok env_down" by (simp add: download_ok_def env_down_def)
  have b: "first_stream env_down vid = None" for vid
    by (simp add: first_stream_def env_down_def PIPED_INSTANCES_def INVIDIOUS_INSTANCES_def
        List.map_filter_simps)
  show ?thesis using from_url_fallback[OF a, of u] b by (simp split: option.splits)
qed

lemma world_down_fails:
  "\<forall>t u. isl (fst (from_url (resolve world_down t) u))" "\<forall>t. voice world_down t"
  by (simp_all add: world_down_def env_down_fails)

text \<open>
  C2, as amended. Every resolution fails, a voice client is there, nothing is prefetched and
  no queued song is a local file. With both loop modes off and no playlist pending, the
  recursion gives up on each queued song in turn, one failure per song, and returns at depth
  one more than the length of the queue, with the queue empty, no current song, and
  \<open>QueueIsEmpty\<close> as the last line printed. With repeat-song on and a current song that is
  not a local file, no depth of recursion is enough.
\<close>

theorem failing_queue_drains:
  "(\<forall>t u. isl (fst (from_url (resolve w t) u))) \<Longrightarrow> (\<forall>t. voice w t) \<Longrightarrow>
   preloaded_sources p = [] \<Longrightarrow> (\<forall>s \<in> set (queue p). source_type s \<noteq> Local) \<Longrightarrow>
     (\<not> loop p \<and> \<not> loop_queue p \<and> pending_playlist p = None \<longrightarrow>
        (\<exists>p'. play_next (Suc (length (queue p))) w p = Some p' \<and> queue p' = [] \<and> current p' = None \<and>
              preloaded_sources p' = [] \<and> out p' = out p @ skipped (queue p) @ [QueueIsEmpty] \<and>
              clock p' = clock p + length (queue p))) \<and>
     (loop p \<and> current p = Some c \<and> source_type c \<noteq> Local \<longrightarrow> (\<forall>n. play_next n w p = None))"
  using all_fail_run[of w p] repeat_never_returns[of w p c] by blast

theorem failing_queue_drains_witness:
  "(\<exists>p'. play_next 3 world_down (enqueue [yt_song 0 ''x'', yt_song 1 ''a''] new_player) = Some p' \<and>
         queue p' = [] \<and> current p' = None \<and>
         out p' = [PlayingFromQueue ''x'', ErrorPlayingSong, PlayingFromQueue ''a'', ErrorPlayingSong, QueueIsEmpty]) \<and>
   play_next 5 world_down looping_x = None"
proof -
  let ?p = "enqueue [yt_song 0 ''x'', yt_song 1 ''a''] new_player"
  have a: "preloaded_sources ?p = []" "\<forall>s \<in> set (queue ?p). source_type s \<noteq> Local"
    "\<not> loop ?p \<and> \<not> loop_queue ?p \<and> pending_playlist ?p = None" "Suc (length (queue ?p)) = 3"
    "out ?p @ skipped (queue ?p) @ [QueueIsEmpty] =
       [PlayingFromQueue ''x'', ErrorPlayingSong, PlayingFromQueue ''a'', ErrorPlayingSong, QueueIsEmpty]"
    by (simp_all add: enqueue_def new_player_def yt_song_def skipped_def)
  have b: "preloaded_sources looping_x = []" "\<forall>s \<in> set (queue looping_x). source_type s \<noteq> Local"
    "loop looping_x \<and> current looping_x = Some (yt_song 0 ''x'') \<and> source_type (yt_song 0 ''x'') \<noteq> Local"
    by (simp_all add: looping_x_def new_player_def yt_song_def)
  from failing_queue_drains[OF world_down_fails a(1) a(2)] a(3)
  have "\<exists>p'. play_next (Suc (length (queue ?p))) world_down ?p = Some p' \<and> queue p' = [] \<and> current p' = None \<and>
              preloaded_sources p' = [] \<and> out p' = out ?p @ skipped (queue ?p) @ [QueueIsEmpty] \<and>
              clock p' = clock ?p + length (queue ?p)" by blast
  then have c: "\<exists>p'. play_next 3 world_down ?p = Some p' \<and> queue p' = [] \<and> current p' = None \<and>
         out p' = [PlayingFromQueue ''x'', ErrorPlayingSong, PlayingFromQueue ''a'', ErrorPlayingSong, QueueIsEmpty]"
    unfolding a(4) a(5) by blast
  from failing_queue_drains[OF world_down_fails b(1) b(2)] b(3)
  have "play_next 5 world_down looping_x = None" by blast
  with c show ?thesis by blast
qed

text \<open>
  C2 as it is written fails: nothing bounds the number of consecutive failures. Twelve
  songs that cannot be resolved are twelve failures in a row, after which the player prints
  what it prints for any empty queue; and a single song on repeat that cannot be resolved
  is retried without end.
\<close>

theorem no_skip_limit_counterexample:
  "(\<exists>p'. play_next 13 world_down twelve_songs = Some p' \<and>
         out p' = skipped (queue twelve_songs) @ [QueueIsEmpty] \<and>
         length (filter (\<lambda>n. n = ErrorPlayingSong) (out p')) = 12 \<and> current p' = None) \<and>
   (\<forall>n. play_next n world_down looping_x = None)"
proof -
  have a: "preloaded_sources twelve_songs = []" "\<forall>s \<in> set (queue twelve_songs). source_type s \<noteq> Local"
    "\<not> loop twelve_songs" "\<not> loop_queue twelve_songs" "pending_playlist twelve_songs = None"
    "Suc (length (queue twelve_songs)) = 13" "out twelve_songs = []"
    by (simp_all add: twelve_songs_def enqueue_def new_player_def yt_song_def)
  have l: "length (filter (\<lambda>n. n = ErrorPlayingSong) (skipped q @ [QueueIsEmpty])) = length q" for q
    by (induction q) (simp_all add: skipped_def)
  from all_fail_run[OF world_down_fails a(3) a(4) a(5) a(1) a(2)] obtain p' where
    p: "play_next (Suc (length (queue twelve_songs))) world_down twelve_songs = Some p'"
       "current p' = None" "out p' = out twelve_songs @ skipped (queue twelve_songs) @ [QueueIsEmpty]"
    by blast
  from p(3) have o: "out p' = skipped (queue twelve_songs) @ [QueueIsEmpty]" by (simp add: a(7))
  have "length (filter (\<lambda>n. n = ErrorPlayingSong) (out p')) = 12"
    unfolding o l using a(6) by simp
  with p o have c: "\<exists>p'. play_next 13 world_down twelve_songs = Some p' \<and>
         out p' = skipped (queue twelve_songs) @ [QueueIsEmpty] \<and>
         length (filter (\<lambda>n. n = ErrorPlayingSong) (out p')) = 12 \<and> current p' = None"
    unfolding a(6) by blast
  have "play_next n world_down looping_x = None" for n
    using repeat_never_returns[OF world_down_fails, of looping_x "yt_song 0 ''x''" n]
    by (simp add: looping_x_def new_player_def yt_song_def)
  with c show ?thesis by blast
qed

subsection \<open>Repeat-song\<close>

lemma resolved_by_fields:
  "oid (resolved_by f c) = oid c" "source_type (resolved_by f c) = source_type c"
  "requester (resolved_by f c) = requester c"
  by (simp_all add: resolved_by_def)

lemma obtain_source_frame:
  "queue (snd (obtain_source w t c p)) = queue p \<and>
   loop (snd (obtain_source w t c p)) = loop p \<and>
   loop_queue (snd (obtain_source w t c p)) = loop_queue p \<and>
   pending_playlist (snd (obtain_source w t c p)) = pending_playlist p \<and>
   (current (snd (obtain_source w t c p)) = current p \<or>
    (search_pending c \<and> (\<exists>f. current (snd (obtain_source w t c p)) = Some (resolved_by f c))))"
proof (cases "map_of (preloaded_sources p) (song_key c)")
  case (Some src)
  then show ?thesis by (simp add: obtain_source_def say_def)
next
  case None
  show ?thesis
  proof (cases "search w t (remove_all ''spotify:search:'' (url c))")
    case None
    with \<open>map_of (preloaded_sources p) (song_key c) = None\<close> show ?thesis
      by (simp add: obtain_source_def)
  next
    case (Some f)
    with \<open>map_of (preloaded_sources p) (song_key c) = None\<close> show ?thesis
      by (simp add: obtain_source_def) blast
  qed
qed

lemma start_playing_snd:
  "snd (start_playing w t c p) = snd (obtain_source w t c p) \<or>
   (\<exists>n. snd (start_playing w t c p) = say n (snd (obtain_source w t c p))) \<or>
   (\<exists>n. snd (start_playing w t c p) = spawn PreloadNextSong (say n (snd (obtain_source w t c p))))"
proof (cases "obtain_source w t c p")
  case (Pair r p6)
  then show ?thesis
    by (cases r) (auto simp: start_playing_def Let_def)
qed

lemma start_playing_frame:
  assumes "start_playing w t c p = (b, p')"
  shows "queue p' = queue p \<and> loop p' = loop p \<and> loop_queue p' = loop_queue p \<and>
     pending_playlist p' = pending_playlist p \<and>
     (current p' = current p \<or> (search_pending c \<and> (\<exists>f. current p' = Some (resolved_by f c))))"
proof -
  from assms have p': "p' = snd (start_playing w t c p)" by simp
  from start_playing_snd[of w t c p] obtain_source_frame[of w t c p] show ?thesis
    unfolding p' by (elim disjE exE) (simp_all add: say_def spawn_def)
qed

lemma pop_song_fields:
  "queue (pop_song c rest p) = rest" "current (pop_song c rest p) = Some c"
  "loop (pop_song c rest p) = loop p" "loop_queue (pop_song c rest p) = loop_queue p"
  "pending_playlist (pop_song c rest p) = pending_playlist p"
  "preloaded_sources (pop_song c rest p) = preloaded_sources p"
  by (simp_all add: pop_song_def tick_def say_def spawn_def Let_def)

lemma play_next_repeat:
  "play_next n w p = Some p' \<Longrightarrow> loop p \<Longrightarrow> current p = Some c \<Longrightarrow>
     queue p' = queue p \<and> loop p' \<and> pending_playlist p' = pending_playlist p \<and>
     (\<exists>c'. current p' = Some c' \<and> oid c' = oid c \<and> (\<not> search_pending c \<longrightarrow> c' = c))"
proof (induction n arbitrary: p c)
  case 0
  then show ?case by simp
next
  case (Suc n)
  from Suc.prems have ns: "next_song w p = p\<lparr>queue := c # queue p\<rparr>" by (simp add: next_song_repeat)
  let ?p5 = "pop_song c (queue p) (p\<lparr>queue := c # queue p\<rparr>)"
  have p5: "queue ?p5 = queue p" "current ?p5 = Some c" "loop ?p5" "pending_playlist ?p5 = pending_playlist p"
    using Suc.prems by (simp_all add: pop_song_fields)
  show ?case
  proof (cases "voice w (clock p)")
    case False
    with Suc.prems(1) ns have "p' = say NoVoiceClient ?p5" by (simp add: Let_def)
    with p5 show ?thesis by (simp add: say_def)
  next
    case True
    obtain b p6 where sp: "start_playing w (clock p) c ?p5 = (b, p6)" by force
    from start_playing_frame[OF sp] p5
    have p6: "queue p6 = queue p" "loop p6" "pending_playlist p6 = pending_playlist p"
      "\<exists>c'. current p6 = Some c' \<and> oid c' = oid c \<and> (\<not> search_pending c \<longrightarrow> c' = c)"
      by (auto simp: resolved_by_fields)
    show ?thesis
    proof (cases b)
      case True
      with Suc.prems(1) ns \<open>voice w (clock p)\<close> sp have "p' = p6" by (simp add: Let_def)
      with p6 show ?thesis by simp
    next
      case False
      with Suc.prems(1) ns \<open>voice w (clock p)\<close> sp
      have r: "play_next n w (say ErrorPlayingSong p6) = Some p'" by (simp add: Let_def)
      from p6(4) obtain c' where c': "current p6 = Some c'" "oid c' = oid c" "\<not> search_pending c \<longrightarrow> c' = c"
        by blast
      from Suc.IH[OF r, of c'] p6 c' show ?thesis by (auto simp: say_def)
    qed
  qed
qed

lemma preload_finish_frame:
  "queue (preload_finish k r p) = queue p" "current (preload_finish k r p) = current p"
  "loop (preload_finish k r p) = loop p" "loop_queue (preload_finish k r p) = loop_queue p"
  "pending_playlist (preload_finish k r p) = pending_playlist p"
  by (cases r; simp add: preload_finish_def say_def)+

lemma update_song_frame:
  "map oid (queue (update_song i (resolved_by f) p)) = map oid (queue p)"
  "loop (update_song i g p) = loop p" "loop_queue (update_song i g p) = loop_queue p"
  "pending_playlist (update_song i g p) = pending_playlist p"
  "preloaded_sources (update_song i g p) = preloaded_sources p"
  "current p = Some c \<Longrightarrow> oid c \<noteq> i \<Longrightarrow> current (update_song i g p) = Some c"
  by (simp_all add: update_song_def resolved_by_fields comp_def if_distrib[of oid] cong: if_cong)

lemma preload_next_song_cases:
  obtains (idle) "preload_next_song w p = p"
  | (plain) h rest r where "queue p = h # rest" "map_of (preloaded_sources p) (song_key h) = None"
      "preload_next_song w p = preload_finish (song_key h) r p"
  | (rewritten) h rest r f where "queue p = h # rest" "search_pending h"
      "map_of (preloaded_sources p) (song_key h) = None"
      "preload_next_song w p = preload_finish (song_key h) r (update_song (oid h) (resolved_by f) p)"
proof (cases "queue p")
  case Nil
  then have "preload_next_song w p = p" by (simp add: preload_next_song_def preload_begin_def)
  then show ?thesis by (rule idle)
next
  case (Cons h rest)
  show ?thesis
  proof (cases "map_of (preloaded_sources p) (song_key h) \<noteq> None \<or> source_type h = Local")
    case True
    with Cons have "preload_next_song w p = p" by (auto simp: preload_next_song_def preload_begin_def)
    then show ?thesis by (rule idle)
  next
    case False
    then have m: "map_of (preloaded_sources p) (song_key h) = None" "source_type h \<noteq> Local" by simp_all
    show ?thesis
    proof (cases "search_pending h")
      case False
      with Cons m have "preload_next_song w p =
          preload_finish (song_key h) (fst (from_url (resolve w (clock p)) (url h))) p"
        by (simp add: preload_next_song_def preload_begin_def)
      with Cons m(1) show ?thesis by (rule plain)
    next
      case True
      show ?thesis
      proof (cases "search w (clock p) (remove_all ''spotify:search:'' (url h))")
        case None
        with Cons m True have "preload_next_song w p =
            preload_finish (song_key h) (fst (from_url (resolve w (clock p)) (url h))) p"
          by (simp add: preload_next_song_def preload_begin_def preload_searched_def)
        with Cons m(1) show ?thesis by (rule plain)
      next
        case (Some f)
        with Cons m True have "preload_next_song w p =
            preload_finish (song_key h) (fst (from_url (resolve w (clock p)) (fo_url f)))
              (update_song (oid h) (resolved_by f) p)"
          by (simp add: preload_next_song_def preload_begin_def preload_searched_def)
        with Cons True m(1) show ?thesis by (rule rewritten)
      qed
    qed
  qed
qed

lemma preload_frame:
  "map oid (queue (preload_next_song w p)) = map oid (queue p) \<and>
   loop (preload_next_song w p) = loop p \<and>
   pending_playlist (preload_next_song w p) = pending_playlist p \<and>
   (current p = Some c \<and> oid c \<notin> oid ` set (queue p) \<longrightarrow> current (preload_next_song w p) = Some c)"
proof (cases rule: preload_next_song_cases[of w p])
  case idle
  then show ?thesis by simp
next
  case (plain h rest r)
  then show ?thesis by (simp add: preload_finish_frame)
next
  case (rewritten h rest r f)
  then show ?thesis by (auto simp: preload_finish_frame update_song_frame)
qed

lemma run_task_keeps:
  assumes "map oid (queue p) = os" "loop p" "pending_playlist p = None" "current p = Some c" "oid c \<notin> set os"
  shows "map oid (queue (run_task w p t)) = os \<and> loop (run_task w p t) \<and>
         pending_playlist (run_task w p t) = None \<and> current (run_task w p t) = Some c"
proof (cases t)
  case PreloadNextSong
  from assms have "oid c \<notin> oid ` set (queue p)" by (metis set_map)
  with preload_frame[of w p c] assms PreloadNextSong show ?thesis
    by (simp add: run_task_def tick_def)
next
  case LoadNextFromPlaylist
  with assms show ?thesis by (simp add: run_task_def tick_def load_next_from_playlist_def)
qed

lemma tasks_keep:
  "map oid (queue p) = os \<Longrightarrow> loop p \<Longrightarrow> pending_playlist p = None \<Longrightarrow> current p = Some c \<Longrightarrow>
   oid c \<notin> set os \<Longrightarrow>
     map oid (queue (foldl (run_task w) p ts)) = os \<and> loop (foldl (run_task w) p ts) \<and>
     pending_playlist (foldl (run_task w) p ts) = None \<and> current (foldl (run_task w) p ts) = Some c"
proof (induction ts arbitrary: p)
  case Nil
  then show ?case by simp
next
  case (Cons t ts)
  from run_task_keeps[OF Cons.prems, of w t] Cons.prems(5) show ?case
    by (simp add: Cons.IH)
qed

lemma advance_repeat:
  assumes "advance n w p = Some p'" "loop p" "pending_playlist p = None" "current p = Some c"
    "oid c \<notin> oid ` set (queue p)"
  shows "map oid (queue p') = map oid (queue p) \<and> loop p' \<and> pending_playlist p' = None \<and>
         (\<exists>c'. current p' = Some c' \<and> oid c' = oid c \<and> (\<not> search_pending c \<longrightarrow> c' = c))"
proof -
  from assms(1) obtain p1 where p1: "play_next n w p = Some p1" "p' = settle w p1"
    by (auto simp: advance_def)
  from play_next_repeat[OF p1(1) assms(2) assms(4)] assms(3) obtain c' where
    r: "queue p1 = queue p" "loop p1" "pending_playlist p1 = None" "current p1 = Some c'" "oid c' = oid c"
       "\<not> search_pending c \<longrightarrow> c' = c" by auto
  let ?p = "p1\<lparr>spawned := []\<rparr>"
  have "map oid (queue ?p) = map oid (queue p)" "loop ?p" "pending_playlist ?p = None" "current ?p = Some c'"
    "oid c' \<notin> set (map oid (queue p))"
    using r assms(5) by simp_all
  from tasks_keep[OF this, of w "spawned p1"] p1(2) r show ?thesis by (simp add: settle_def)
qed

lemma advance_times_repeat:
  "advance_times m n w p = Some p' \<Longrightarrow> loop p \<Longrightarrow> pending_playlist p = None \<Longrightarrow> current p = Some c \<Longrightarrow>
   oid c \<notin> oid ` set (queue p) \<Longrightarrow>
     map oid (queue p') = map oid (queue p) \<and> loop p' \<and> pending_playlist p' = None \<and>
     (\<exists>c'. current p' = Some c' \<and> oid c' = oid c \<and> (\<not> search_pending c \<longrightarrow> c' = c))"
proof (induction m arbitrary: p c)
  case 0
  then show ?case by simp
next
  case (Suc m)
  from Suc.prems(1) obtain p1 where p1: "advance n w p = Some p1" "advance_times m n w p1 = Some p'"
    by (auto split: option.splits)
  from advance_repeat[OF p1(1) Suc.prems(2-5)] obtain c' where
    r: "map oid (queue p1) = map oid (queue p)" "loop p1" "pending_playlist p1 = None"
       "current p1 = Some c'" "oid c' = oid c" "\<not> search_pending c \<longrightarrow> c' = c" by blast
  have n: "oid c' \<notin> oid ` set (queue p1)"
    using r(1) r(5) Suc.prems(5) by (metis set_map)
  from Suc.IH[OF p1(2) r(2) r(3) r(4) n] r show ?case by auto
qed

lemma obtain_source_ok:
  assumes "\<forall>t u. \<not> isl (fst (from_url (resolve w t) u))"
  shows "\<not> isl (fst (obtain_source w t c p))"
proof (cases "map_of (preloaded_sources p) (song_key c)")
  case (Some src)
  then show ?thesis by (simp add: obtain_source_def)
next
  case None
  show ?thesis
  proof (cases "search w t (remove_all ''spotify:search:'' (url c))")
    case None
    with \<open>map_of (preloaded_sources p) (song_key c) = None\<close> assms show ?thesis
      by (simp add: obtain_source_def)
  next
    case (Some f)
    with \<open>map_of (preloaded_sources p) (song_key c) = None\<close> assms show ?thesis
      by (simp add: obtain_source_def)
  qed
qed

lemma start_playing_ok:
  assumes "\<forall>t u. \<not> isl (fst (from_url (resolve w t) u))" "\<forall>t. play_ok w t"
  shows "fst (start_playing w t c p)"
proof (cases "obtain_source w t c p")
  case (Pair r p6)
  with obtain_source_ok[OF assms(1), of t c p] assms(2) show ?thesis
    by (cases r) (simp_all add: start_playing_def)
qed

text \<open>
  Where every resolution gives a source and the transport takes it, \<^verbatim>\<open>play_next\<close> returns
  without calling itself, and so does any number of advances.
\<close>

lemma play_next_returns:
  assumes "\<forall>t u. \<not> isl (fst (from_url (resolve w t) u))" "\<forall>t. play_ok w t"
  shows "play_next (Suc n) w p \<noteq> None"
proof (cases "queue (next_song w p)")
  case Nil
  then show ?thesis by (simp add: Let_def)
next
  case (Cons c rest)
  obtain b p6 where sp: "start_playing w (clock p) c (pop_song c rest (next_song w p)) = (b, p6)" by force
  with start_playing_ok[OF assms, of "clock p" c "pop_song c rest (next_song w p)"] have "b" by simp
  with Cons sp show ?thesis by (simp add: Let_def)
qed

lemma advance_times_returns:
  assumes "\<forall>t u. \<not> isl (fst (from_url (resolve w t) u))" "\<forall>t. play_ok w t"
  shows "advance_times m (Suc n) w p \<noteq> None"
proof (induction m arbitrary: p)
  case 0
  then show ?case by simp
next
  case (Suc m)
  from play_next_returns[OF assms, of n p] obtain p1 where "play_next (Suc n) w p = Some p1" by blast
  then have "advance (Suc n) w p = Some (settle w p1)" by (simp add: advance_def)
  with Suc.IH[of "settle w p1"] show ?case by simp
qed

lemma play_next_times_repeat:
  "play_next_times m n w p = Some q \<Longrightarrow> loop p \<Longrightarrow> current p = Some c \<Longrightarrow>
     queue q = queue p \<and> loop q \<and>
     (\<exists>c'. current q = Some c' \<and> oid c' = oid c \<and> (\<not> search_pending c \<longrightarrow> c' = c))"
proof (induction m arbitrary: p c)
  case 0
  then show ?case by simp
next
  case (Suc m)
  from Suc.prems(1) obtain p1 where p1: "play_next n w p = Some p1" "play_next_times m n w p1 = Some q"
    by (auto split: option.splits)
  from play_next_repeat[OF p1(1) Suc.prems(2,3)] obtain c' where
    r: "queue p1 = queue p" "loop p1" "current p1 = Some c'" "oid c' = oid c"
       "\<not> search_pending c \<longrightarrow> c' = c" by blast
  from Suc.IH[OF p1(2) r(2) r(3)] r show ?case by auto
qed

text \<open>
  C6. Repeat-song is on and there is a current song. After any number of calls of
  \<^verbatim>\<open>play_next\<close> that return, the queue is what it was, song for song, so its length is the
  same, and the current song is the same object; a song that is not search-pending is the
  same in every field. The same holds after any number of advances with their prefetches
  run in between, when no playlist is pending (the field is never assigned in the source)
  and the current song is not also in the queue: the queue has the same songs in the same
  order.
\<close>

theorem repeat_song_keeps_queue:
  "loop p \<Longrightarrow> current p = Some c \<Longrightarrow>
     (play_next_times m n w p = Some q \<longrightarrow>
        length (queue q) = length (queue p) \<and> queue q = queue p \<and> loop q \<and>
        (\<exists>c'. current q = Some c' \<and> oid c' = oid c \<and> (\<not> search_pending c \<longrightarrow> c' = c))) \<and>
     (advance_times m n w p = Some p' \<and> pending_playlist p = None \<and> oid c \<notin> oid ` set (queue p) \<longrightarrow>
        length (queue p') = length (queue p) \<and> map oid (queue p') = map oid (queue p) \<and> loop p' \<and>
        (\<exists>c'. current p' = Some c' \<and> oid c' = oid c \<and> (\<not> search_pending c \<longrightarrow> c' = c)))"
proof -
  assume a: "loop p" "current p = Some c"
  have 1: "play_next_times m n w p = Some q \<longrightarrow>
        length (queue q) = length (queue p) \<and> queue q = queue p \<and> loop q \<and>
        (\<exists>c'. current q = Some c' \<and> oid c' = oid c \<and> (\<not> search_pending c \<longrightarrow> c' = c))"
    using play_next_times_repeat[OF _ a, of m n w q] by auto
  have 2: "advance_times m n w p = Some p' \<and> pending_playlist p = None \<and> oid c \<notin> oid ` set (queue p) \<longrightarrow>
        length (queue p') = length (queue p) \<and> map oid (queue p') = map oid (queue p) \<and> loop p' \<and>
        (\<exists>c'. current p' = Some c' \<and> oid c' = oid c \<and> (\<not> search_pending c \<longrightarrow> c' = c))"
  proof (rule impI)
    assume b: "advance_times m n w p = Some p' \<and> pending_playlist p = None \<and> oid c \<notin> oid ` set (queue p)"
    from b have b1: "advance_times m n w p = Some p'" and b2: "pending_playlist p = None"
      and b3: "oid c \<notin> oid ` set (queue p)" by simp_all
    from advance_times_repeat[OF b1 a(1) b2 a(2) b3]
    have r: "map oid (queue p') = map oid (queue p)" "loop p'"
      "\<exists>c'. current p' = Some c' \<and> oid c' = oid c \<and> (\<not> search_pending c \<longrightarrow> c' = c)" by simp_all
    from r(1) have "length (queue p') = length (queue p)" by (metis length_map)
    with r show "length (queue p') = length (queue p) \<and> map oid (queue p') = map oid (queue p) \<and> loop p' \<and>
        (\<exists>c'. current p' = Some c' \<and> oid c' = oid c \<and> (\<not> search_pending c \<longrightarrow> c' = c))" by blast
  qed
  from 1 2 show ?thesis by blast
qed

lemma play_next_times_returns:
  assumes "\<forall>t u. \<not> isl (fst (from_url (resolve w t) u))" "\<forall>t. play_ok w t"
  shows "play_next_times m (Suc n) w p \<noteq> None"
proof (induction m arbitrary: p)
  case 0
  then show ?case by simp
next
  case (Suc m)
  from play_next_returns[OF assms, of n p] obtain p1 where "play_next (Suc n) w p = Some p1" by blast
  with Suc.IH[of p1] show ?case by simp
qed

theorem repeat_song_keeps_queue_witness:
  "(\<exists>q. play_next_times 3 (Suc 0) world_ok looping_ab = Some q \<and>
        queue q = [yt_song 1 ''a'', yt_song 2 ''b''] \<and> current q = Some (yt_song 0 ''x'')) \<and>
   (\<exists>p'. advance_times 3 (Suc 0) world_ok looping_ab = Some p' \<and>
        length (queue p') = 2 \<and> current p' = Some (yt_song 0 ''x'') \<and> loop p')"
proof -
  have ok: "\<forall>t u. \<not> isl (fst (from_url (resolve world_ok t) u))" "\<forall>t. play_ok world_ok t"
    by (simp_all add: world_ok_def env_ok_def from_url_def download_stage_def)
  obtain p' where r: "advance_times 3 (Suc 0) world_ok looping_ab = Some p'"
    using advance_times_returns[OF ok, of 3 0 looping_ab] by blast
  obtain q where s: "play_next_times 3 (Suc 0) world_ok looping_ab = Some q"
    using play_next_times_returns[OF ok, of 3 0 looping_ab] by blast
  have a: "loop looping_ab" "current looping_ab = Some (yt_song 0 ''x'')" "pending_playlist looping_ab = None"
    "oid (yt_song 0 ''x'') \<notin> oid ` set (queue looping_ab)" "length (queue looping_ab) = 2"
    "\<not> search_pending (yt_song 0 ''x'')" "queue looping_ab = [yt_song 1 ''a'', yt_song 2 ''b'']"
    by (simp_all add: looping_ab_def player_ab_def new_player_def yt_song_def search_pending_def)
  from repeat_song_keeps_queue[OF a(1) a(2), where m = 3 and n = "Suc 0" and w = world_ok and p' = p' and q = q]
    r s a(3) a(4) a(5) a(6) a(7)
  have "queue q = [yt_song 1 ''a'', yt_song 2 ''b''] \<and> current q = Some (yt_song 0 ''x'') \<and>
        length (queue p') = 2 \<and> current p' = Some (yt_song 0 ''x'') \<and> loop p'" by auto
  with r s show ?thesis by blast
qed

subsection \<open>The prefetch slot\<close>

lemma slot_ok_cases:
  "slot_ok p \<longleftrightarrow> preloaded_sources p = [] \<or>
     (\<exists>h rest src. queue p = h # rest \<and> preloaded_sources p = [(song_key h, src)])"
  by (auto simp: slot_ok_def split: list.splits prod.splits)

lemma slot_ok_length: "slot_ok p \<Longrightarrow> length (preloaded_sources p) \<le> 1"
  by (auto simp: slot_ok_cases)

lemma slot_frames:
  "slot_ok (say n p) = slot_ok p" "slot_ok (tick p) = slot_ok p" "slot_ok (spawn t p) = slot_ok p"
  "slot_ok (p\<lparr>spawned := ts\<rparr>) = slot_ok p" "slot_ok (p\<lparr>loop := b\<rparr>) = slot_ok p"
  "slot_ok (p\<lparr>loop := b, loop_queue := b'\<rparr>) = slot_ok p"
  "settled (say n p) = settled p" "settled (tick p) = settled p" "settled (spawn t p) = settled p"
  "settled (p\<lparr>spawned := ts\<rparr>) = settled p" "settled (p\<lparr>loop := b\<rparr>) = settled p"
  "settled (p\<lparr>loop := b, loop_queue := b'\<rparr>) = settled p"
  by (simp_all add: slot_ok_cases settled_def say_def tick_def spawn_def)

lemma obtain_source_plain:
  assumes "\<not> search_pending c"
  shows "current (snd (obtain_source w t c p)) = current p"
    and "preloaded_sources (snd (obtain_source w t c p)) =
          (if map_of (preloaded_sources p) (song_key c) = None then preloaded_sources p
           else AList.delete (song_key c) (preloaded_sources p))"
  using assms by (auto simp: obtain_source_def say_def split: option.splits)

lemma start_playing_plain:
  assumes "\<not> search_pending c" "start_playing w t c p = (b, p')"
  shows "queue p' = queue p \<and> current p' = current p \<and> pending_playlist p' = pending_playlist p \<and>
         preloaded_sources p' =
          (if map_of (preloaded_sources p) (song_key c) = None then preloaded_sources p
           else AList.delete (song_key c) (preloaded_sources p))"
proof -
  from assms(2) have p': "p' = snd (start_playing w t c p)" by simp
  from start_playing_snd[of w t c p] obtain_source_frame[of w t c p] obtain_source_plain[OF assms(1), of w t p]
  show ?thesis unfolding p' by (elim disjE exE) (simp_all add: say_def spawn_def)
qed

lemma preload_keeps_slot:
  assumes "slot_ok p" "settled p"
  shows "slot_ok (preload_next_song w p) \<and> settled (preload_next_song w p)"
proof (cases rule: preload_next_song_cases[of w p])
  case idle
  with assms show ?thesis by simp
next
  case (plain h rest r)
  from assms(1) plain(1,2) have e: "preloaded_sources p = []" by (auto simp: slot_ok_cases)
  show ?thesis
  proof (cases r)
    case (Inl err)
    with plain assms show ?thesis
      by (simp add: preload_finish_def slot_frames)
  next
    case (Inr src)
    with plain e assms show ?thesis
      by (simp add: preload_finish_def slot_frames) (simp add: slot_ok_cases settled_def)
  qed
next
  case (rewritten h rest r f)
  with assms(2) show ?thesis by (simp add: settled_def)
qed

lemma run_task_keeps_slot:
  assumes "slot_ok p" "settled p"
  shows "slot_ok (run_task w p t) \<and> settled (run_task w p t)"
proof (cases t)
  case PreloadNextSong
  with preload_keeps_slot[OF assms, of w] show ?thesis
    by (simp add: run_task_def slot_frames)
next
  case LoadNextFromPlaylist
  moreover from assms(2) have "load_next_from_playlist w p = p"
    by (simp add: load_next_from_playlist_def settled_def)
  ultimately show ?thesis using assms
    by (simp add: run_task_def slot_frames)
qed

lemma tasks_keep_slot:
  "slot_ok p \<Longrightarrow> settled p \<Longrightarrow>
     slot_ok (foldl (run_task w) p ts) \<and> settled (foldl (run_task w) p ts)"
proof (induction ts arbitrary: p)
  case Nil
  then show ?case by simp
next
  case (Cons t ts)
  from run_task_keeps_slot[OF Cons.prems, of w t] show ?case by (simp add: Cons.IH)
qed

lemma settle_keeps_slot:
  assumes "slot_ok p" "settled p"
  shows "slot_ok (settle w p) \<and> settled (settle w p)"
proof -
  from assms have "slot_ok (p\<lparr>spawned := []\<rparr>)" "settled (p\<lparr>spawned := []\<rparr>)"
    by (simp_all add: slot_frames)
  from tasks_keep_slot[OF this] show ?thesis by (simp add: settle_def)
qed

text \<open>What the reinsertion and the pop leave, for a settled player whose slot is in order.\<close>

lemma next_song_slot:
  assumes "slot_ok p" "settled p" "queue (next_song w p) = c # rest"
  shows "\<not> search_pending c \<and> list_all (\<lambda>s. \<not> search_pending s) rest \<and>
         pending_playlist (next_song w p) = None \<and>
         preloaded_sources (next_song w p) = preloaded_sources p \<and>
         (preloaded_sources p = [] \<or> (\<exists>src. preloaded_sources p = [(song_key c, src)]) \<or>
          (\<exists>h t src. rest = h # t \<and> preloaded_sources p = [(song_key h, src)]))"
proof -
  from assms(2) have pn: "pending_playlist p = None"
    and qs: "list_all (\<lambda>s. \<not> search_pending s) (queue p)"
    and cs: "\<And>s. current p = Some s \<Longrightarrow> \<not> search_pending s"
    by (simp_all add: settled_def)
  from pn have ns: "next_song w p = reinsert p"
    by (simp add: next_song_def reinsert_def split: option.splits)
  have "reinsert p = p \<or>
        (\<exists>c0. current p = Some c0 \<and> reinsert p = p\<lparr>queue := c0 # queue p\<rparr>) \<or>
        (\<exists>c0. current p = Some c0 \<and> reinsert p = p\<lparr>queue := queue p @ [c0]\<rparr>)"
    by (cases "current p") (simp_all add: reinsert_def)
  then consider (same) "reinsert p = p"
    | (head) c0 where "current p = Some c0" "reinsert p = p\<lparr>queue := c0 # queue p\<rparr>"
    | (tail) c0 where "current p = Some c0" "reinsert p = p\<lparr>queue := queue p @ [c0]\<rparr>"
    by blast
  then show ?thesis
  proof cases
    case same
    with assms(3) ns have q: "queue p = c # rest" by simp
    with qs have 1: "\<not> search_pending c" "list_all (\<lambda>s. \<not> search_pending s) rest" by simp_all
    from assms(1) q have "preloaded_sources p = [] \<or> (\<exists>src. preloaded_sources p = [(song_key c, src)])"
      by (auto simp: slot_ok_cases)
    with 1 ns same pn show ?thesis by auto
  next
    case (head c0)
    with assms(3) ns have q: "c = c0" "rest = queue p" by simp_all
    with qs cs[OF head(1)] have 1: "\<not> search_pending c" "list_all (\<lambda>s. \<not> search_pending s) rest" by simp_all
    from assms(1) q have "preloaded_sources p = [] \<or>
        (\<exists>h t src. rest = h # t \<and> preloaded_sources p = [(song_key h, src)])"
      by (auto simp: slot_ok_cases)
    with 1 ns head pn show ?thesis by auto
  next
    case (tail c0)
    with assms(3) ns have q: "queue p @ [c0] = c # rest" by simp
    show ?thesis
    proof (cases "queue p")
      case Nil
      with assms(1) have e: "preloaded_sources p = []" by (auto simp: slot_ok_cases)
      from Nil q have "c = c0" "rest = []" by simp_all
      with cs[OF tail(1)] e ns tail pn show ?thesis by simp
    next
      case (Cons h t)
      with q have hc: "h = c" "rest = t @ [c0]" by simp_all
      with qs Cons cs[OF tail(1)] have 1: "\<not> search_pending c" "list_all (\<lambda>s. \<not> search_pending s) rest"
        by simp_all
      from assms(1) Cons hc have "preloaded_sources p = [] \<or> (\<exists>src. preloaded_sources p = [(song_key c, src)])"
        by (auto simp: slot_ok_cases)
      with 1 ns tail pn show ?thesis by auto
    qed
  qed
qed

lemma slot_after_lookup:
  assumes "cache = [] \<or> (\<exists>src. cache = [(song_key c, src)]) \<or>
          (\<exists>h t src. rest = h # t \<and> cache = [(song_key h, src)])"
    and "cache' = (if map_of cache (song_key c) = None then cache else AList.delete (song_key c) cache)"
  shows "cache' = [] \<or> (\<exists>h t src. rest = h # t \<and> cache' = [(song_key h, src)])"
proof -
  from assms(1) consider (empty) "cache = []" | (hit) src where "cache = [(song_key c, src)]"
    | (ahead) h t src where "rest = h # t" "cache = [(song_key h, src)]" by blast
  then show ?thesis
  proof cases
    case empty
    with assms(2) show ?thesis by simp
  next
    case (hit src)
    with assms(2) show ?thesis by (simp add: AList.delete_eq)
  next
    case (ahead h t src)
    show ?thesis
    proof (cases "song_key h = song_key c")
      case True
      with ahead assms(2) show ?thesis by (simp add: AList.delete_eq)
    next
      case False
      with ahead assms(2) show ?thesis by simp
    qed
  qed
qed

lemma play_next_keeps_slot:
  assumes voice: "\<forall>t. voice w t"
  shows "slot_ok p \<Longrightarrow> settled p \<Longrightarrow> play_next n w p = Some p' \<Longrightarrow> slot_ok p' \<and> settled p'"
proof (induction n arbitrary: p)
  case 0
  then show ?case by simp
next
  case (Suc n)
  show ?case
  proof (cases "queue (next_song w p)")
    case Nil
    with Suc.prems(3) have "p' = say QueueIsEmpty ((next_song w p)\<lparr>current := None, preloaded_sources := []\<rparr>)"
      by (simp add: Let_def)
    moreover from Suc.prems(2) have "pending_playlist (next_song w p) = None"
      by (simp add: settled_def next_song_def reinsert_def split: option.splits)
    ultimately show ?thesis using Nil by (simp add: say_def slot_ok_cases settled_def)
  next
    case (Cons c rest)
    from next_song_slot[OF Suc.prems(1,2) Cons]
    have c: "\<not> search_pending c" and r: "list_all (\<lambda>s. \<not> search_pending s) rest"
      and pn: "pending_playlist (next_song w p) = None"
      and pc: "preloaded_sources (next_song w p) = preloaded_sources p"
      and q: "preloaded_sources p = [] \<or> (\<exists>src. preloaded_sources p = [(song_key c, src)]) \<or>
          (\<exists>h t src. rest = h # t \<and> preloaded_sources p = [(song_key h, src)])"
      by simp_all
    let ?p5 = "pop_song c rest (next_song w p)"
    obtain b p6 where sp: "start_playing w (clock p) c ?p5 = (b, p6)" by force
    from start_playing_plain[OF c sp] pn pc
    have p6: "queue p6 = rest" "current p6 = Some c" "pending_playlist p6 = None"
      "preloaded_sources p6 =
          (if map_of (preloaded_sources p) (song_key c) = None then preloaded_sources p
           else AList.delete (song_key c) (preloaded_sources p))"
      by (simp_all add: pop_song_fields)
    from slot_after_lookup[OF q p6(4)] p6(1) have s6: "slot_ok p6" by (simp add: slot_ok_cases)
    from p6 c r have t6: "settled p6" by (simp add: settled_def)
    show ?thesis
    proof (cases b)
      case True
      with Suc.prems(3) Cons voice sp have "p' = p6" by (simp add: Let_def)
      with s6 t6 show ?thesis by simp
    next
      case False
      with Suc.prems(3) Cons voice sp have "play_next n w (say ErrorPlayingSong p6) = Some p'"
        by (simp add: Let_def)
      moreover from s6 t6 have "slot_ok (say ErrorPlayingSong p6)" "settled (say ErrorPlayingSong p6)"
        by (simp_all add: slot_frames)
      ultimately show ?thesis using Suc.IH by blast
    qed
  qed
qed

lemma step_keeps_slot:
  assumes "\<forall>t. voice w t" "slot_ok p" "settled p" "gentle x" "step w x p = Some p'"
  shows "slot_ok p' \<and> settled p'"
proof (cases x)
  case (Enqueue songs)
  with assms show ?thesis
    by (cases "queue p") (auto simp: enqueue_def slot_ok_cases settled_def)
next
  case (Advance n)
  with assms(5) obtain p1 where "play_next n w p = Some p1" "p' = settle w p1" by (auto simp: advance_def)
  with play_next_keeps_slot[OF assms(1-3)] settle_keeps_slot show ?thesis by blast
next
  case (Skip n)
  with assms(5) obtain p1 where p1: "play_next n w (p\<lparr>loop := False\<rparr>) = Some p1" "p' = settle w p1"
    by (auto simp: advance_def)
  from assms(2,3) have "slot_ok (p\<lparr>loop := False\<rparr>)" "settled (p\<lparr>loop := False\<rparr>)"
    by (simp_all add: slot_frames)
  from play_next_keeps_slot[OF assms(1) this p1(1)] settle_keeps_slot p1(2) show ?thesis by blast
next
  case (Shuffle rnd)
  with assms(4) have sub: "set (rnd (queue p)) \<subseteq> set (queue p)" by simp
  have "slot_ok (snd (shuffle rnd p)) \<and> settled (snd (shuffle rnd p))"
    using assms(2,3) sub by (auto simp: shuffle_def spawn_def slot_ok_cases settled_def list_all_iff)
  with settle_keeps_slot Shuffle assms(5) show ?thesis by auto
next
  case Clear
  with assms show ?thesis by (auto simp: clear_def slot_ok_cases settled_def)
next
  case Stop
  with assms show ?thesis by (auto simp: stop_def slot_ok_cases settled_def)
next
  case (SetLoop m)
  with assms show ?thesis
    by (cases m) (auto simp: set_loop_def slot_frames)
next
  case (Remove i)
  with assms(4) show ?thesis by simp
qed

lemma run_keeps_slot:
  assumes "\<forall>t. voice w t"
  shows "slot_ok p \<Longrightarrow> settled p \<Longrightarrow> list_all gentle ops \<Longrightarrow> run w ops p = Some p' \<Longrightarrow>
         slot_ok p' \<and> settled p'"
proof (induction ops arbitrary: p)
  case Nil
  then show ?case by simp
next
  case (Cons x xs)
  from Cons.prems(4) obtain p1 where p1: "step w x p = Some p1" "run w xs p1 = Some p'"
    by (auto split: option.splits)
  from Cons.prems(3) have g: "gentle x" "list_all gentle xs" by simp_all
  from step_keeps_slot[OF assms Cons.prems(1,2) g(1) p1(1)] Cons.IH[OF _ _ g(2) p1(2)]
  show ?case by blast
qed

lemma obtain_source_keeps_empty:
  "preloaded_sources p = [] \<Longrightarrow> preloaded_sources (snd (obtain_source w t c p)) = []"
proof (cases "search w t (remove_all ''spotify:search:'' (url c))")
  case None
  assume "preloaded_sources p = []"
  with None show ?thesis by (simp add: obtain_source_def)
next
  case (Some f)
  assume "preloaded_sources p = []"
  with Some show ?thesis by (simp add: obtain_source_def)
qed

lemma start_playing_keeps_empty:
  assumes "preloaded_sources p = []"
  shows "preloaded_sources (snd (start_playing w t c p)) = []"
  using start_playing_snd[of w t c p] obtain_source_keeps_empty[OF assms, of w t c]
  by (elim disjE exE) (simp_all add: say_def spawn_def)

lemma load_next_cache:
  "preloaded_sources (load_next_from_playlist w p) = preloaded_sources p"
proof (cases "pending_playlist p")
  case None
  then show ?thesis by (simp add: load_next_from_playlist_def)
next
  case (Some pl)
  show ?thesis
  proof (cases "is_spotify pl")
    case True
    with Some show ?thesis
      by (simp add: load_next_from_playlist_def next_index_def say_def split: sum.splits option.splits)
  next
    case False
    with Some show ?thesis
      by (simp add: load_next_from_playlist_def next_index_def say_def split: option.splits)
  qed
qed

lemma next_song_cache: "preloaded_sources (next_song w p) = preloaded_sources p"
proof -
  have "preloaded_sources (reinsert p) = preloaded_sources p"
    by (cases "current p") (simp_all add: reinsert_def)
  then show ?thesis by (simp add: next_song_def Let_def load_next_cache)
qed

lemma play_next_keeps_empty:
  "preloaded_sources p = [] \<Longrightarrow> play_next n w p = Some q \<Longrightarrow> preloaded_sources q = []"
proof (induction n arbitrary: p)
  case 0
  then show ?case by simp
next
  case (Suc n)
  show ?case
  proof (cases "queue (next_song w p)")
    case Nil
    with Suc.prems(2) show ?thesis by (auto simp: Let_def say_def)
  next
    case (Cons c rest)
    let ?p5 = "pop_song c rest (next_song w p)"
    from Suc.prems(1) have e5: "preloaded_sources ?p5 = []" by (simp add: pop_song_fields next_song_cache)
    show ?thesis
    proof (cases "voice w (clock p)")
      case False
      with Suc.prems(2) Cons have "q = say NoVoiceClient ?p5" by (simp add: Let_def)
      with e5 show ?thesis by (simp add: say_def)
    next
      case True
      obtain b p6 where sp: "start_playing w (clock p) c ?p5 = (b, p6)" by force
      from start_playing_keeps_empty[OF e5, of w "clock p" c] sp have e6: "preloaded_sources p6 = []" by simp
      show ?thesis
      proof (cases b)
        case True
        with Suc.prems(2) Cons \<open>voice w (clock p)\<close> sp have "q = p6" by (simp add: Let_def)
        with e6 show ?thesis by simp
      next
        case False
        with Suc.prems(2) Cons \<open>voice w (clock p)\<close> sp
        have "play_next n w (say ErrorPlayingSong p6) = Some q" by (simp add: Let_def)
        moreover from e6 have "preloaded_sources (say ErrorPlayingSong p6) = []" by (simp add: say_def)
        ultimately show ?thesis using Suc.IH by blast
      qed
    qed
  qed
qed

text \<open>
  C5, as amended. A voice client is there at every advance, the player starts with its slot
  in order, no playlist pending and no search-pending song, and the operations are
  enqueues of songs that are not search-pending, advances, skips, shuffles, clears, stops
  and loop-mode changes, each with its prefetch run to the end. Then after the run the
  dictionary is empty or holds one entry, keyed by the song at the head of the queue. After
  a clear or a stop every lookup misses, and an advance alone does not change that: only a
  completed prefetch puts an entry in.
\<close>

theorem prefetch_slot_invariant:
  "(\<forall>t. voice w t) \<Longrightarrow> slot_ok p \<Longrightarrow> settled p \<Longrightarrow> list_all gentle ops \<Longrightarrow>
   run w ops p = Some p' \<Longrightarrow>
     slot_ok p' \<and> length (preloaded_sources p') \<le> 1 \<and>
     map_of (preloaded_sources (snd (clear p'))) k = None \<and>
     map_of (preloaded_sources (snd (stop p'))) k = None \<and>
     (play_next n w (snd (clear p')) = Some q \<longrightarrow> map_of (preloaded_sources q) k = None)"
proof -
  assume a: "\<forall>t. voice w t" "slot_ok p" "settled p" "list_all gentle ops" "run w ops p = Some p'"
  from run_keeps_slot[OF a] have s: "slot_ok p'" by simp
  have e: "preloaded_sources (snd (clear p')) = []" by (simp add: clear_def)
  have "play_next n w (snd (clear p')) = Some q \<longrightarrow> map_of (preloaded_sources q) k = None"
    using play_next_keeps_empty[OF e, of n w q] by simp
  with s slot_ok_length[OF s] show ?thesis by (simp add: clear_def stop_def)
qed

lemmas step_defs = run_defs shuffle_def clear_def

theorem prefetch_slot_invariant_witness:
  "run world_ok quiet_ops new_player \<noteq> None \<and>
   slot_ok (the (run world_ok quiet_ops new_player)) \<and>
   length (preloaded_sources (the (run world_ok quiet_ops new_player))) \<le> 1"
proof -
  have v: "\<forall>t. voice world_ok t" by (simp add: world_ok_def)
  have i: "slot_ok new_player" "settled new_player" by (simp_all add: slot_ok_def settled_def new_player_def)
  have g: "list_all gentle quiet_ops"
    by (simp add: quiet_ops_def yt_song_def search_pending_def)
  have "\<exists>p'. run world_ok quiet_ops new_player = Some p'"
    by (simp add: quiet_ops_def step_defs)
  then obtain p' where r: "run world_ok quiet_ops new_player = Some p'" by blast
  from prefetch_slot_invariant[OF v i g r] r show ?thesis by simp
qed

text \<open>
  C5 as it is written fails. Four songs are enqueued and the first plays, with the second
  prefetched. The guild has no voice client when the transport calls back: \<^verbatim>\<open>play_next\<close>
  pops the second song and returns, its source still in the dictionary. At the next
  advance the third song is resolved and played and the fourth prefetched: the dictionary
  holds two entries, one of them for a song that is no longer queued.
\<close>

theorem prefetch_two_entries_counterexample:
  "list_all gentle gap_ops \<and> slot_ok new_player \<and> settled new_player \<and>
   map fst (preloaded_sources (the (run world_gap gap_ops new_player))) =
     [song_key (yt_song 1 ''a''), song_key (yt_song 3 ''c'')] \<and>
   length (preloaded_sources (the (run world_gap gap_ops new_player))) = 2 \<and>
   queue (the (run world_gap gap_ops new_player)) = [yt_song 3 ''c''] \<and>
   current (the (run world_gap gap_ops new_player)) = Some (yt_song 2 ''b'')"
proof -
  have g: "list_all gentle gap_ops \<and> slot_ok new_player \<and> settled new_player"
    by (simp add: gap_ops_def yt_song_def search_pending_def slot_ok_def settled_def new_player_def)
  have "run world_gap gap_ops new_player =
      Some \<lparr>queue = [yt_song 3 ''c''], current = Some (yt_song 2 ''b''), loop = False, loop_queue = False,
        pending_playlist = None,
        preloaded_sources =
          [(song_key (yt_song 1 ''a''), Downloaded ''/tmp/ytdl_dQw4w9WgXcQ.mp3'' info0),
           (song_key (yt_song 3 ''c''), Downloaded ''/tmp/ytdl_dQw4w9WgXcQ.mp3'' info0)],
        clock = 5, fresh = 0, spawned = [],
        out = [PlayingFromQueue ''x'', NowPlaying ''x'', PreloadedSong, PlayingFromQueue ''a'',
               NoVoiceClient, PlayingFromQueue ''b'', NowPlaying ''b'', PreloadedSong]\<rparr>"
    by (simp add: gap_ops_def world_gap_def run_defs)
  with g show ?thesis by simp
qed

subsection \<open>How many songs a playlist adds\<close>

text \<open>
  \<^verbatim>\<open>pending_playlist\<close> is \<^verbatim>\<open>None\<close> in a new player and no operation assigns it anything
  else; while it is \<^verbatim>\<open>None\<close> the lazy refill returns at once. The lemmas follow the two
  fields \<open>pending_playlist\<close> and \<open>fresh\<close> through \<^verbatim>\<open>play_next\<close>, the tasks and the commands.
\<close>

lemma load_next_counts:
  "length (queue (load_next_from_playlist w p)) + fresh p =
     length (queue p) + fresh (load_next_from_playlist w p)"
  by (auto simp: load_next_from_playlist_def next_index_def say_def split: option.splits sum.splits)

lemma load_next_idle: "pending_playlist p = None \<Longrightarrow> load_next_from_playlist w p = p"
  by (simp add: load_next_from_playlist_def)

lemma load_times_idle:
  "pending_playlist p = None \<Longrightarrow>
     queue (load_times k w p) = queue p \<and> pending_playlist (load_times k w p) = None \<and>
     fresh (load_times k w p) = fresh p"
  by (induction k arbitrary: p) (simp_all add: load_next_idle tick_def)

lemma reinsert_cursor:
  "pending_playlist (reinsert p) = pending_playlist p" "fresh (reinsert p) = fresh p"
  by (simp_all add: reinsert_def split: option.splits)

lemma next_song_idle: "pending_playlist p = None \<Longrightarrow> next_song w p = reinsert p"
  by (simp add: next_song_def Let_def reinsert_cursor)

lemma pop_song_cursor:
  "pending_playlist (pop_song c rest p) = pending_playlist p" "fresh (pop_song c rest p) = fresh p"
  by (simp_all add: pop_song_def tick_def say_def spawn_def Let_def)

lemma obtain_source_cursor:
  "pending_playlist (snd (obtain_source w t c p)) = pending_playlist p \<and>
   fresh (snd (obtain_source w t c p)) = fresh p"
proof (cases "map_of (preloaded_sources p) (song_key c)")
  case (Some src)
  then show ?thesis by (simp add: obtain_source_def say_def)
next
  case None
  then show ?thesis
    by (cases "search w t (remove_all ''spotify:search:'' (url c))") (simp_all add: obtain_source_def)
qed

lemma start_playing_cursor:
  "pending_playlist (snd (start_playing w t c p)) = pending_playlist p \<and>
   fresh (snd (start_playing w t c p)) = fresh p"
  using start_playing_snd[of w t c p] obtain_source_cursor[of w t c p]
  by (elim disjE exE) (simp_all add: say_def spawn_def)

lemma play_next_cursor:
  "play_next n w p = Some p' \<Longrightarrow> pending_playlist p = None \<Longrightarrow>
     pending_playlist p' = None \<and> fresh p' = fresh p"
proof (induction n arbitrary: p)
  case 0
  then show ?case by simp
next
  case (Suc n)
  let ?p2 = "reinsert p"
  from Suc.prems have ns: "next_song w p = ?p2" by (simp add: next_song_idle)
  have p2: "pending_playlist ?p2 = None" "fresh ?p2 = fresh p"
    using Suc.prems(2) by (simp_all add: reinsert_cursor)
  show ?case
  proof (cases "queue ?p2")
    case Nil
    with Suc.prems(1) ns have "p' = say QueueIsEmpty (?p2\<lparr>current := None, preloaded_sources := []\<rparr>)"
      by (simp add: Let_def)
    with p2 show ?thesis by (simp add: say_def)
  next
    case (Cons c rest)
    let ?p5 = "pop_song c rest ?p2"
    have p5: "pending_playlist ?p5 = None" "fresh ?p5 = fresh p"
      using p2 by (simp_all add: pop_song_cursor)
    show ?thesis
    proof (cases "voice w (clock p)")
      case False
      with Suc.prems(1) ns Cons have "p' = say NoVoiceClient ?p5" by (simp add: Let_def)
      with p5 show ?thesis by (simp add: say_def)
    next
      case True
      obtain b p6 where sp: "start_playing w (clock p) c ?p5 = (b, p6)" by force
      from start_playing_cursor[of w "clock p" c ?p5] sp p5
      have p6: "pending_playlist p6 = None" "fresh p6 = fresh p" by simp_all
      show ?thesis
      proof (cases b)
        case True
        with Suc.prems(1) ns Cons \<open>voice w (clock p)\<close> sp have "p' = p6" by (simp add: Let_def)
        with p6 show ?thesis by simp
      next
        case False
        with Suc.prems(1) ns Cons \<open>voice w (clock p)\<close> sp
        have r: "play_next n w (say ErrorPlayingSong p6) = Some p'" by (simp add: Let_def)
        from Suc.IH[OF r] p6 show ?thesis by (simp add: say_def)
      qed
    qed
  qed
qed

lemma preload_cursor:
  "pending_playlist (preload_next_song w p) = pending_playlist p \<and>
   fresh (preload_next_song w p) = fresh p"
proof (cases rule: preload_next_song_cases[of w p])
  case idle
  then show ?thesis by simp
next
  case (plain h rest r)
  then show ?thesis by (cases r) (simp_all add: preload_finish_def say_def)
next
  case (rewritten h rest r f)
  then show ?thesis by (cases r) (simp_all add: preload_finish_def say_def update_song_def)
qed

lemma run_task_cursor:
  "pending_playlist p = None \<Longrightarrow>
     pending_playlist (run_task w p t) = None \<and> fresh (run_task w p t) = fresh p"
  using preload_cursor[of w p]
  by (cases t) (simp_all add: run_task_def tick_def load_next_idle)

lemma tasks_cursor:
  "pending_playlist p = None \<Longrightarrow>
     pending_playlist (foldl (run_task w) p ts) = None \<and> fresh (foldl (run_task w) p ts) = fresh p"
proof (induction ts arbitrary: p)
  case Nil
  then show ?case by simp
next
  case (Cons t ts)
  from run_task_cursor[OF Cons.prems, of w t] Cons.IH[of "run_task w p t"] show ?case by simp
qed

lemma settle_cursor:
  "pending_playlist p = None \<Longrightarrow>
     pending_playlist (settle w p) = None \<and> fresh (settle w p) = fresh p"
  using tasks_cursor[of "p\<lparr>spawned := []\<rparr>" w "spawned p"] by (simp add: settle_def)

lemma advance_cursor:
  "advance n w p = Some p' \<Longrightarrow> pending_playlist p = None \<Longrightarrow>
     pending_playlist p' = None \<and> fresh p' = fresh p"
proof -
  assume a: "advance n w p = Some p'" and n: "pending_playlist p = None"
  from a obtain p1 where p1: "play_next n w p = Some p1" "p' = settle w p1"
    by (auto simp: advance_def)
  from play_next_cursor[OF p1(1) n] settle_cursor[of p1 w] p1(2) show ?thesis by simp
qed

lemma step_cursor:
  "step w x p = Some p' \<Longrightarrow> pending_playlist p = None \<Longrightarrow>
     pending_playlist p' = None \<and> fresh p' = fresh p"
proof (cases x)
  case (Enqueue songs)
  then show "step w x p = Some p' \<Longrightarrow> pending_playlist p = None \<Longrightarrow> ?thesis"
    by (auto simp: enqueue_def)
next
  case (Advance n)
  then show "step w x p = Some p' \<Longrightarrow> pending_playlist p = None \<Longrightarrow> ?thesis"
    using advance_cursor[of n w p p'] by simp
next
  case (Skip n)
  then show "step w x p = Some p' \<Longrightarrow> pending_playlist p = None \<Longrightarrow> ?thesis"
    using advance_cursor[of n w "p\<lparr>loop := False\<rparr>" p'] by simp
next
  case (Shuffle rnd)
  then show "step w x p = Some p' \<Longrightarrow> pending_playlist p = None \<Longrightarrow> ?thesis"
    using settle_cursor[of "snd (shuffle rnd p)" w] by (auto simp: shuffle_def spawn_def)
next
  case Clear
  then show "step w x p = Some p' \<Longrightarrow> pending_playlist p = None \<Longrightarrow> ?thesis"
    by (auto simp: clear_def)
next
  case Stop
  then show "step w x p = Some p' \<Longrightarrow> pending_playlist p = None \<Longrightarrow> ?thesis"
    by (auto simp: stop_def)
next
  case (SetLoop m)
  then show "step w x p = Some p' \<Longrightarrow> pending_playlist p = None \<Longrightarrow> ?thesis"
    by (cases m) (auto simp: set_loop_def)
next
  case (Remove i)
  then show "step w x p = Some p' \<Longrightarrow> pending_playlist p = None \<Longrightarrow> ?thesis"
    by (auto simp: remove_def split: option.splits)
qed

lemma run_cursor:
  "run w ops p = Some p' \<Longrightarrow> pending_playlist p = None \<Longrightarrow>
     pending_playlist p' = None \<and> fresh p' = fresh p"
proof (induction ops arbitrary: p)
  case Nil
  then show ?case by simp
next
  case (Cons x xs)
  from Cons.prems(1) obtain p1 where p1: "step w x p = Some p1" "run w xs p1 = Some p'"
    by (auto split: option.splits)
  from step_cursor[OF p1(1) Cons.prems(2)] Cons.IH[OF p1(2)] show ?case by simp
qed

text \<open>
  C7. \<^verbatim>\<open>/play\<close> of a playlist or album appends what \<^verbatim>\<open>process_youtube_playlist_fast\<close> or
  \<^verbatim>\<open>process_spotify_playlist_fast\<close> returns, and each returns at most 50 songs whatever the
  length of the playlist: the eager path appends at most 50 entries. The lazy path appends
  none: in every state that a run of operations reaches from a new player, no playlist is
  pending, so \<^verbatim>\<open>play_next\<close> does not refill, a call of \<^verbatim>\<open>load_next_from_playlist\<close> changes
  nothing and any number of them leave the queue as it is. The songs a refill appends are
  the \<^verbatim>\<open>Song\<close> objects it builds, which \<open>fresh\<close> counts (last conjunct, for every player),
  and \<open>fresh\<close> is still 0 at the end of the run: no refill has appended a song at any
  point of it either.
\<close>

theorem playlist_enqueue_cap:
  assumes "run w ops new_player = Some p"
  shows
  "(case process_youtube_playlist_fast data r i of
      Inl _ \<Rightarrow> True
    | Inr (songs, n) \<Rightarrow> length songs \<le> 50 \<and> queue (enqueue songs p) = queue p @ songs) \<and>
   (case process_spotify_playlist_fast available sdata r i of
      (songs, n) \<Rightarrow> length songs \<le> 50 \<and> queue (enqueue songs p) = queue p @ songs) \<and>
   pending_playlist p = None \<and> fresh p = 0 \<and>
   next_song w' p = reinsert p \<and>
   load_next_from_playlist w' p = p \<and>
   queue (load_times k w' p) = queue p \<and>
   length (queue (load_next_from_playlist w' q)) + fresh q =
     length (queue q) + fresh (load_next_from_playlist w' q)"
proof -
  have yt: "(case process_youtube_playlist_fast data r i of
      Inl _ \<Rightarrow> True
    | Inr (songs, n) \<Rightarrow> length songs \<le> 50 \<and> queue (enqueue songs p) = queue p @ songs)"
    using youtube_fast_cap[of data r i] by (auto simp: enqueue_def split: sum.splits)
  have sp: "(case process_spotify_playlist_fast available sdata r i of
      (songs, n) \<Rightarrow> length songs \<le> 50 \<and> queue (enqueue songs p) = queue p @ songs)"
    using spotify_fast_cap[of available sdata r i] by (auto simp: enqueue_def split: prod.splits)
  from run_cursor[OF assms] have c: "pending_playlist p = None" "fresh p = 0"
    by (simp_all add: new_player_def)
  from c(1) have l: "next_song w' p = reinsert p" "load_next_from_playlist w' p = p"
    "queue (load_times k w' p) = queue p"
    by (simp_all add: next_song_idle load_next_idle load_times_idle)
  from yt sp c l load_next_counts[of w' q] show ?thesis by simp
qed

lemma songs_of_entries_replicate:
  "songs_of_entries r i (replicate n (Some e)) = map (\<lambda>j. song_of_entry r j e) [i..<i + n]"
  by (induction n arbitrary: i) (simp_all add: upt_rec)

lemma advance_returns:
  assumes "\<forall>t u. \<not> isl (fst (from_url (resolve w t) u))" "\<forall>t. play_ok w t"
  shows "\<exists>p'. advance (Suc n) w p = Some p'"
  using play_next_returns[OF assms, of n p] by (auto simp: advance_def)

text \<open>
  A playlist of 60 entries gives 50 songs; after the run that plays it no playlist is
  pending, and 60 refills add nothing.
\<close>

theorem playlist_enqueue_cap_witness:
  "process_youtube_playlist_fast sixty_entries 7 0 = Inr (first_fifty, 60) \<and>
   length first_fifty = 50 \<and>
   run world_ok playlist_ops new_player \<noteq> None \<and>
   pending_playlist (the (run world_ok playlist_ops new_player)) = None \<and>
   fresh (the (run world_ok playlist_ops new_player)) = 0 \<and>
   queue (load_times 60 world_ok (the (run world_ok playlist_ops new_player))) =
     queue (the (run world_ok playlist_ops new_player))"
proof -
  have ok: "\<forall>t u. \<not> isl (fst (from_url (resolve world_ok t) u))" "\<forall>t. play_ok world_ok t"
    by (simp_all add: world_ok_def env_ok_def from_url_def download_stage_def)
  have e: "process_youtube_playlist_fast sixty_entries 7 0 = Inr (first_fifty, 60)"
    using songs_of_entries_replicate[of 7 0 50 entry0]
    by (simp add: process_youtube_playlist_fast_def sixty_entries_def first_fifty_def)
  have l: "length first_fifty = 50" by (simp add: first_fifty_def)
  obtain p1 where p1: "advance (Suc 0) world_ok (enqueue first_fifty new_player) = Some p1"
    using advance_returns[OF ok] by blast
  obtain p2 where p2: "advance (Suc 0) world_ok (set_loop QueueMode p1) = Some p2"
    using advance_returns[OF ok] by blast
  obtain p3 where p3: "advance (Suc 0) world_ok (p2\<lparr>loop := False\<rparr>) = Some p3"
    using advance_returns[OF ok] by blast
  from p1 p2 p3 have r: "run world_ok playlist_ops new_player = Some p3"
    by (simp add: playlist_ops_def)
  from playlist_enqueue_cap[OF r, where data = sixty_entries and r = 7 and i = 0 and k = 60 and w' = world_ok]
    e l r show ?thesis by simp
qed

end
